theory Spec2Isabelle
  imports Complex_Main
begin

section \<open>Tabular reinforcement learning: the shared base and its update rules\<close>

text \<open>
  A shallow embedding of \<^verbatim>\<open>RL_Algorithm/RL_base.py\<close>, \<^verbatim>\<open>Algorithm/MC.py\<close> and
  \<^verbatim>\<open>Algorithm/Double_Q_Learning.py\<close>. The values and rewards of the tables, the
  observations and epsilon are idealised as \<^typ>\<open>real\<close>; the arithmetic of
  \<^verbatim>\<open>mapping_action\<close> is binary floating point, with the rounding of every operation.
  Every exception the source can raise is a value \<open>Inl e\<close> of the result. The random draws
  of the policy are explicit arguments.
\<close>

subsection \<open>Errors as values\<close>

datatype error =
  IndexError | ValueError | KeyError | AttributeError | TypeError
  | ZeroDivisionError | RuntimeError | OverflowError

definition ebind :: "error + 'a \<Rightarrow> ('a \<Rightarrow> error + 'b) \<Rightarrow> error + 'b" where
  "ebind m f = (case m of Inl e \<Rightarrow> Inl e | Inr x \<Rightarrow> f x)"

subsection \<open>Data model\<close>

datatype ControlType = MONTE_CARLO | TEMPORAL_DIFFERENCE | Q_LEARNING | DOUBLE_Q_LEARNING

text \<open>
  A component of a state key is a Python int (from \<^verbatim>\<open>discretize_state\<close>) or a Python
  float (from \<^verbatim>\<open>load_q_value\<close>). Python compares and hashes them by numeric value,
  so \<^verbatim>\<open>(1, 2) == (1.0, 2.0)\<close>; only \<^verbatim>\<open>str\<close> tells them apart.
\<close>

datatype pynum = PyInt int | PyFloat real

fun num_val :: "pynum \<Rightarrow> real" where
  "num_val (PyInt i) = of_int i"
| "num_val (PyFloat x) = x"

type_synonym state_key = "pynum list"

definition key_val :: "state_key \<Rightarrow> real list" where
  "key_val k = map num_val k"

text \<open>
  A value vector is a numpy array (created by the \<^verbatim>\<open>defaultdict\<close> factory
  \<^verbatim>\<open>np.zeros\<close>) or a plain Python list (stored by \<^verbatim>\<open>load_q_value\<close>). Indexing,
  \<^verbatim>\<open>np.argmax\<close> and \<^verbatim>\<open>np.max\<close> accept both; \<^verbatim>\<open>.tolist()\<close> exists on arrays only.
\<close>

datatype vec = NdArray "real list" | PyList "real list"

fun elems :: "vec \<Rightarrow> real list" where
  "elems (NdArray xs) = xs"
| "elems (PyList xs) = xs"

fun with_elems :: "vec \<Rightarrow> real list \<Rightarrow> vec" where
  "with_elems (NdArray _) ys = NdArray ys"
| "with_elems (PyList _) ys = PyList ys"

text \<open>
  A table is a Python dict: an association list in insertion order. A key that is
  already present (numerically equal) keeps its position and its original key object.
\<close>

type_synonym table = "(state_key \<times> vec) list"

fun tbl_lookup :: "table \<Rightarrow> state_key \<Rightarrow> vec option" where
  "tbl_lookup [] k = None"
| "tbl_lookup ((k', v) # t) k =
     (if key_val k' = key_val k then Some v else tbl_lookup t k)"

fun tbl_store :: "state_key \<Rightarrow> vec \<Rightarrow> table \<Rightarrow> table" where
  "tbl_store k v [] = [(k, v)]"
| "tbl_store k v ((k', v') # t) =
     (if key_val k' = key_val k then (k', v) # t else (k', v') # tbl_store k v t)"

record agent =
  control_type :: ControlType
  lr :: real
  discount_factor :: real
  epsilon :: real
  epsilon_decay :: real
  final_epsilon :: real
  num_of_action :: int
  action_range :: "real list"
  discretize_state_weight :: "int list"
  q_values :: table
  n_values :: table
  obs_hist :: "state_key list"
  action_hist :: "int list"
  reward_hist :: "real list"
  qa_values :: table
  qb_values :: table
  check_update :: bool

text \<open>\<^verbatim>\<open>BaseAlgorithm.__init__\<close>: empty tables, empty histories, the toggle set.\<close>

definition init :: "ControlType \<Rightarrow> int \<Rightarrow> real list \<Rightarrow> int list \<Rightarrow> real \<Rightarrow> real \<Rightarrow> real
    \<Rightarrow> real \<Rightarrow> real \<Rightarrow> agent" where
  "init ct n_act a_range weight learning_rate initial_epsilon eps_decay final_eps discount =
     \<lparr> control_type = ct, lr = learning_rate, discount_factor = discount,
       epsilon = initial_epsilon, epsilon_decay = eps_decay, final_epsilon = final_eps,
       num_of_action = n_act, action_range = a_range, discretize_state_weight = weight,
       q_values = [], n_values = [], obs_hist = [], action_hist = [], reward_hist = [],
       qa_values = [], qb_values = [], check_update = True \<rparr>"

subsection \<open>Vectors: indexing, argmax, max\<close>

text \<open>Python indexing: a negative index counts from the end, out of range raises.\<close>

definition py_index :: "nat \<Rightarrow> int \<Rightarrow> error + nat" where
  "py_index n i =
     (if 0 \<le> i \<and> i < int n then Inr (nat i)
      else if - int n \<le> i \<and> i < 0 then Inr (nat (int n + i))
      else Inl IndexError)"

definition vec_get :: "vec \<Rightarrow> int \<Rightarrow> error + real" where
  "vec_get v i = ebind (py_index (length (elems v)) i) (\<lambda>j. Inr (elems v ! j))"

definition vec_set :: "vec \<Rightarrow> int \<Rightarrow> real \<Rightarrow> error + vec" where
  "vec_set v i x =
     ebind (py_index (length (elems v)) i) (\<lambda>j. Inr (with_elems v ((elems v)[j := x])))"

text \<open>\<^verbatim>\<open>np.argmax\<close>: the index of the first maximum; an empty sequence raises.\<close>

fun argmax_scan :: "nat \<Rightarrow> real \<Rightarrow> nat \<Rightarrow> real list \<Rightarrow> nat" where
  "argmax_scan best bv i [] = best"
| "argmax_scan best bv i (x # xs) =
     (if bv < x then argmax_scan i x (Suc i) xs else argmax_scan best bv (Suc i) xs)"

definition np_argmax :: "real list \<Rightarrow> error + nat" where
  "np_argmax xs = (case xs of [] \<Rightarrow> Inl ValueError | x # rest \<Rightarrow> Inr (argmax_scan 0 x 1 rest))"

definition np_max :: "real list \<Rightarrow> error + real" where
  "np_max xs = (case xs of [] \<Rightarrow> Inl ValueError | x # rest \<Rightarrow> Inr (fold max rest x))"

text \<open>
  \<^verbatim>\<open>defaultdict(lambda: np.zeros(self.num_of_action))\<close>: reading a missing key stores
  and returns a fresh zero vector; \<^verbatim>\<open>np.zeros\<close> rejects a negative length.
\<close>

definition np_zeros :: "int \<Rightarrow> error + vec" where
  "np_zeros n = (if n < 0 then Inl ValueError else Inr (NdArray (replicate (nat n) 0)))"

definition dd_get :: "int \<Rightarrow> table \<Rightarrow> state_key \<Rightarrow> error + (vec \<times> table)" where
  "dd_get n t k =
     (case tbl_lookup t k of
        Some v \<Rightarrow> Inr (v, t)
      | None \<Rightarrow> ebind (np_zeros n) (\<lambda>z. Inr (z, tbl_store k z t)))"

subsection \<open>State discretisation\<close>

text \<open>\<^verbatim>\<open>torch.clip(x, lo, hi)\<close>.\<close>

definition torch_clip :: "real \<Rightarrow> real \<Rightarrow> real \<Rightarrow> real" where
  "torch_clip x lo hi = min (max x lo) hi"

text \<open>
  \<^verbatim>\<open>torch.linspace(start, end, steps)\<close>: \<open>steps\<close> points from \<open>start\<close> in increments of
  \<open>(end - start) / (steps - 1)\<close>; a single point is \<open>start\<close>, no point is the empty
  tensor, a negative count is rejected.
\<close>

definition linspace :: "real \<Rightarrow> real \<Rightarrow> int \<Rightarrow> error + real list" where
  "linspace start end steps =
     (if steps < 0 then Inl RuntimeError
      else if steps = 1 then Inr [start]
      else Inr (map (\<lambda>i. start + real i * ((end - start) / of_int (steps - 1)))
                  [0 ..< nat steps]))"

text \<open>
  \<^verbatim>\<open>torch.bucketize(v, boundaries)\<close> with the default \<^verbatim>\<open>right=False\<close>: the index \<open>i\<close>
  with \<^verbatim>\<open>boundaries[i-1] < v <= boundaries[i]\<close>, that is the position of the first
  boundary that is not below \<open>v\<close> (the number of boundaries when all are below).
\<close>

fun bucketize :: "real \<Rightarrow> real list \<Rightarrow> nat" where
  "bucketize v [] = 0"
| "bucketize v (e # es) = (if e < v then Suc (bucketize v es) else 0)"

text \<open>
  \<^verbatim>\<open>discretize_state\<close>. \<open>policy\<close> is row 0 of the tensor \<^verbatim>\<open>obs['policy']\<close>. The four bin
  counts and the four readings are read by index, so a shorter list raises.
\<close>

definition discretize_state :: "agent \<Rightarrow> real list \<Rightarrow> error + state_key" where
  "discretize_state s policy =
     (case discretize_state_weight s of
        pose_cart_bin # pose_pole_bin # vel_cart_bin # vel_pole_bin # _ \<Rightarrow>
          (let pose_cart_bound = 4;
               pose_pole_bound = 30 * (pi / 180);
               vel_cart_bound = 15;
               vel_pole_bound = 15
           in case policy of
                pose_cart_raw # pose_pole_raw # vel_cart_raw # vel_pole_raw # _ \<Rightarrow>
                  (let pose_cart_clip = torch_clip pose_cart_raw (- pose_cart_bound) pose_cart_bound;
                       pose_pole_clip = torch_clip pose_pole_raw (- pose_pole_bound) pose_pole_bound;
                       vel_cart_clip = torch_clip vel_cart_raw (- vel_cart_bound) vel_cart_bound;
                       vel_pole_clip = torch_clip vel_pole_raw (- vel_pole_bound) vel_pole_bound
                   in
                   ebind (linspace (- pose_cart_bound) pose_cart_bound pose_cart_bin) (\<lambda>pose_cart_grid.
                   ebind (linspace (- pose_pole_bound) pose_pole_bound pose_pole_bin) (\<lambda>pose_pole_grid.
                   ebind (linspace (- vel_cart_bound) vel_cart_bound vel_cart_bin) (\<lambda>vel_cart_grid.
                   ebind (linspace (- vel_pole_bound) vel_pole_bound vel_pole_bin) (\<lambda>vel_pole_grid.
                     Inr [PyInt (int (bucketize pose_cart_clip pose_cart_grid)),
                          PyInt (int (bucketize pose_pole_clip pose_pole_grid)),
                          PyInt (int (bucketize vel_cart_clip vel_cart_grid)),
                          PyInt (int (bucketize vel_pole_clip vel_pole_grid))])))))
              | _ \<Rightarrow> Inl IndexError)
      | _ \<Rightarrow> Inl IndexError)"

subsection \<open>Action selection, action mapping, epsilon decay\<close>

text \<open>
  \<^verbatim>\<open>get_discretize_action\<close>. \<open>u\<close> is the value drawn by \<^verbatim>\<open>np.random.rand()\<close> and \<open>r\<close>
  the one drawn by \<^verbatim>\<open>np.random.randint(num_of_action)\<close>, which raises when there is
  nothing to draw from. The table reads go through the \<^verbatim>\<open>defaultdict\<close>, so the agent
  is returned too.
\<close>

definition get_discretize_action :: "agent \<Rightarrow> state_key \<Rightarrow> real \<Rightarrow> int \<Rightarrow> error + (int \<times> agent)" where
  "get_discretize_action s obs_dis u r =
     (if control_type s = DOUBLE_Q_LEARNING then
        (if u < epsilon s then
           (if num_of_action s \<le> 0 then Inl ValueError else Inr (r, s))
         else
           ebind (dd_get (num_of_action s) (qa_values s) obs_dis) (\<lambda>(qa, ta).
           ebind (dd_get (num_of_action s) (qb_values s) obs_dis) (\<lambda>(qb, tb).
           ebind (np_argmax (elems qa)) (\<lambda>action_from_q1.
           ebind (np_argmax (elems qb)) (\<lambda>action_from_q2.
           ebind (vec_get qa (int action_from_q1)) (\<lambda>va.
           ebind (vec_get qb (int action_from_q2)) (\<lambda>vb.
             Inr (int (if va \<ge> vb then action_from_q1 else action_from_q2),
                  s\<lparr>qa_values := ta, qb_values := tb\<rparr>))))))))
      else
        (if u < epsilon s then
           (if num_of_action s \<le> 0 then Inl ValueError else Inr (r, s))
         else
           ebind (dd_get (num_of_action s) (q_values s) obs_dis) (\<lambda>(q, t).
           ebind (np_argmax (elems q)) (\<lambda>a.
             Inr (int a, s\<lparr>q_values := t\<rparr>)))))"

text \<open>
  \<^verbatim>\<open>mapping_action\<close> computes with Python floats and returns a float32 tensor. A float
  is an IEEE 754 binary value: a finite real, an infinity, or NaN. The sign of a zero is
  not kept: no operation of \<^verbatim>\<open>mapping_action\<close> tells the two zeros apart.
\<close>

datatype pyfloat = Finite real | PosInf | NegInf | NaN

text \<open>\<^verbatim>\<open>int.bit_length()\<close>, and from it the exponent \<open>e\<close> with \<open>2^e \<le> x < 2^(e+1)\<close> of \<open>x > 0\<close>.\<close>

fun bit_length :: "nat \<Rightarrow> nat" where
  "bit_length n = (if n = 0 then 0 else Suc (bit_length (n div 2)))"

declare bit_length.simps [simp del]

definition floor_log2 :: "real \<Rightarrow> int" where
  "floor_log2 x =
     (if 1 \<le> x then int (bit_length (nat \<lfloor>x\<rfloor>)) - 1
      else - int (bit_length (nat (\<lceil>1 / x\<rceil> - 1))))"

text \<open>The nearest integer, the even one of two that are equally near.\<close>

definition round_half_even :: "real \<Rightarrow> int" where
  "round_half_even x =
     (let f = \<lfloor>x\<rfloor>; d = x - of_int f
      in if d < 1/2 then f else if 1/2 < d then f + 1 else if even f then f else f + 1)"

text \<open>
  Rounding to nearest, ties to even, in a binary format with \<open>p\<close> significant bits and
  exponents from \<open>emin\<close> to \<open>emax\<close>: the result is a multiple of the unit in the last place
  of \<open>x\<close> (that of \<open>2^emin\<close> below it, the subnormal range), and infinite when the rounded
  magnitude reaches \<open>2^(emax+1)\<close>.
\<close>

definition round_binary :: "nat \<Rightarrow> int \<Rightarrow> int \<Rightarrow> real \<Rightarrow> pyfloat" where
  "round_binary p emin emax x =
     (if x = 0 then Finite 0
      else let e = max (floor_log2 \<bar>x\<bar>) emin;
               ulp = 2 powi (e - int p + 1);
               y = of_int (round_half_even (x / ulp)) * ulp
           in if 2 powi (emax + 1) \<le> \<bar>y\<bar> then (if 0 < x then PosInf else NegInf)
              else Finite y)"

text \<open>A Python float is a binary64 value, an element of a float32 tensor a binary32 value.\<close>

definition float64 :: "real \<Rightarrow> pyfloat" where
  "float64 = round_binary 53 (- 1022) 1023"

definition float32 :: "real \<Rightarrow> pyfloat" where
  "float32 = round_binary 24 (- 126) 127"

text \<open>
  The float operators \<^verbatim>\<open>+\<close>, \<^verbatim>\<open>-\<close> and \<^verbatim>\<open>*\<close> of Python: the exact result rounded to
  binary64; they overflow to an infinity and do not raise.
\<close>

fun fl_neg :: "pyfloat \<Rightarrow> pyfloat" where
  "fl_neg (Finite x) = Finite (- x)"
| "fl_neg PosInf = NegInf"
| "fl_neg NegInf = PosInf"
| "fl_neg NaN = NaN"

fun fl_add :: "pyfloat \<Rightarrow> pyfloat \<Rightarrow> pyfloat" where
  "fl_add (Finite x) (Finite y) = float64 (x + y)"
| "fl_add NaN _ = NaN"
| "fl_add _ NaN = NaN"
| "fl_add PosInf NegInf = NaN"
| "fl_add NegInf PosInf = NaN"
| "fl_add PosInf _ = PosInf"
| "fl_add NegInf _ = NegInf"
| "fl_add (Finite x) PosInf = PosInf"
| "fl_add (Finite x) NegInf = NegInf"

definition fl_sub :: "pyfloat \<Rightarrow> pyfloat \<Rightarrow> pyfloat" where
  "fl_sub a b = fl_add a (fl_neg b)"

fun fl_mul :: "pyfloat \<Rightarrow> pyfloat \<Rightarrow> pyfloat" where
  "fl_mul (Finite x) (Finite y) = float64 (x * y)"
| "fl_mul NaN _ = NaN"
| "fl_mul _ NaN = NaN"
| "fl_mul (Finite x) PosInf = (if x = 0 then NaN else if 0 < x then PosInf else NegInf)"
| "fl_mul (Finite x) NegInf = (if x = 0 then NaN else if 0 < x then NegInf else PosInf)"
| "fl_mul PosInf (Finite y) = (if y = 0 then NaN else if 0 < y then PosInf else NegInf)"
| "fl_mul NegInf (Finite y) = (if y = 0 then NaN else if 0 < y then NegInf else PosInf)"
| "fl_mul PosInf PosInf = PosInf"
| "fl_mul PosInf NegInf = NegInf"
| "fl_mul NegInf PosInf = NegInf"
| "fl_mul NegInf NegInf = PosInf"

text \<open>
  \<^verbatim>\<open>a / b\<close> on two Python ints: the exact quotient, correctly rounded; a quotient too
  large for a float raises.
\<close>

definition int_truediv :: "int \<Rightarrow> int \<Rightarrow> error + pyfloat" where
  "int_truediv a b =
     (if b = 0 then Inl ZeroDivisionError
      else case float64 (of_int a / of_int b) of
             Finite q \<Rightarrow> Inr (Finite q)
           | _ \<Rightarrow> Inl OverflowError)"

text \<open>\<^verbatim>\<open>torch.tensor(x, dtype=torch.float32)\<close> on a float: the nearest binary32 value.\<close>

definition to_float32 :: "pyfloat \<Rightarrow> pyfloat" where
  "to_float32 v = (case v of Finite x \<Rightarrow> float32 x | _ \<Rightarrow> v)"

text \<open>
  \<^verbatim>\<open>mapping_action\<close>: unpacking \<^verbatim>\<open>action_range\<close> needs exactly two entries. The entries
  are finite float values: Python floats, or Python ints that a float represents exactly
  (the \<^verbatim>\<open>[-20, 20]\<close> of the training script), whose arithmetic gives the same values since
  the difference of two ints is exact and the conversion of an int to a float is correctly
  rounded. \<open>action\<close> is an int.
\<close>

definition mapping_action :: "agent \<Rightarrow> int \<Rightarrow> error + pyfloat" where
  "mapping_action s action =
     (case action_range s of
        [action_min, action_max] \<Rightarrow>
          (if num_of_action s = 1 then Inr (to_float32 (Finite action_min))
           else
             ebind (int_truediv action (num_of_action s - 1)) (\<lambda>t.
               Inr (to_float32
                      (fl_add (Finite action_min)
                         (fl_mul t (fl_sub (Finite action_max) (Finite action_min)))))))
      | _ \<Rightarrow> Inl ValueError)"

definition decay_epsilon :: "agent \<Rightarrow> agent" where
  "decay_epsilon s = s\<lparr>epsilon := max (epsilon s * epsilon_decay s) (final_epsilon s)\<rparr>"

subsection \<open>Double Q-Learning update\<close>

text \<open>
  \<^verbatim>\<open>np.max(self.qb_values[next_obs]) if next_obs in self.qb_values else 0\<close>: the
  membership test does not create the entry.
\<close>

definition best_next :: "table \<Rightarrow> state_key \<Rightarrow> error + real" where
  "best_next t next_obs =
     (case tbl_lookup t next_obs of Some v \<Rightarrow> np_max (elems v) | None \<Rightarrow> Inr 0)"

text \<open>
  The augmented assignment \<^verbatim>\<open>t[obs][action] += lr * (target - t[obs][action])\<close>: the row
  is fetched through the \<^verbatim>\<open>defaultdict\<close>, the cell is read (an index out of range raises
  here), and the new value is written into the same row in place.
\<close>

definition td_assign :: "int \<Rightarrow> table \<Rightarrow> state_key \<Rightarrow> int \<Rightarrow> real \<Rightarrow> real \<Rightarrow> error + table" where
  "td_assign n t obs action rate target =
     ebind (dd_get n t obs) (\<lambda>(row, t1).
     ebind (vec_get row action) (\<lambda>old.
     ebind (vec_set row action (old + rate * (target - old))) (\<lambda>row'.
       Inr (tbl_store obs row' t1))))"

text \<open>\<^verbatim>\<open>Double_Q_Learning.update(obs, action, reward, next_obs)\<close>.\<close>

definition Double_Q_Learning_update ::
    "agent \<Rightarrow> real list \<Rightarrow> int \<Rightarrow> real \<Rightarrow> real list \<Rightarrow> error + agent" where
  "Double_Q_Learning_update s obs action reward next_obs =
     ebind (discretize_state s obs) (\<lambda>obs.
     ebind (discretize_state s next_obs) (\<lambda>next_obs.
       if check_update s then
         ebind (best_next (qb_values s) next_obs) (\<lambda>best_q_b.
         ebind (td_assign (num_of_action s) (qa_values s) obs action (lr s)
                  (reward + discount_factor s * best_q_b)) (\<lambda>qa.
           Inr (s\<lparr>qa_values := qa, check_update := \<not> check_update s\<rparr>)))
       else
         ebind (best_next (qa_values s) next_obs) (\<lambda>best_q_a.
         ebind (td_assign (num_of_action s) (qb_values s) obs action (lr s)
                  (reward + discount_factor s * best_q_a)) (\<lambda>qb.
           Inr (s\<lparr>qb_values := qb, check_update := \<not> check_update s\<rparr>)))))"

text \<open>
  The same call on the agent object. \<^verbatim>\<open>update\<close> returns nothing and works by mutation,
  so a caller still holds the object when the call raises: the result here is the
  exception, if any, and the agent as the call leaves it. Before the toggle is assigned
  on the last line, the only mutation is the row that the \<^verbatim>\<open>defaultdict\<close> creates for
  \<open>obs\<close> in the selected table, and then the cell.
\<close>

definition td_assign_in_place ::
    "int \<Rightarrow> table \<Rightarrow> state_key \<Rightarrow> int \<Rightarrow> real \<Rightarrow> real \<Rightarrow> error option \<times> table" where
  "td_assign_in_place n t obs action rate target =
     (case dd_get n t obs of
        Inl e \<Rightarrow> (Some e, t)
      | Inr (row, t1) \<Rightarrow>
          (case vec_get row action of
             Inl e \<Rightarrow> (Some e, t1)
           | Inr old \<Rightarrow>
               (case vec_set row action (old + rate * (target - old)) of
                  Inl e \<Rightarrow> (Some e, t1)
                | Inr row' \<Rightarrow> (None, tbl_store obs row' t1))))"

definition Double_Q_Learning_update_in_place ::
    "agent \<Rightarrow> real list \<Rightarrow> int \<Rightarrow> real \<Rightarrow> real list \<Rightarrow> error option \<times> agent" where
  "Double_Q_Learning_update_in_place s obs action reward next_obs =
     (case discretize_state s obs of
        Inl e \<Rightarrow> (Some e, s)
      | Inr obs \<Rightarrow>
          (case discretize_state s next_obs of
             Inl e \<Rightarrow> (Some e, s)
           | Inr next_obs \<Rightarrow>
               if check_update s then
                 (case best_next (qb_values s) next_obs of
                    Inl e \<Rightarrow> (Some e, s)
                  | Inr best_q_b \<Rightarrow>
                      (case td_assign_in_place (num_of_action s) (qa_values s) obs action (lr s)
                              (reward + discount_factor s * best_q_b) of
                         (Some e, qa) \<Rightarrow> (Some e, s\<lparr>qa_values := qa\<rparr>)
                       | (None, qa) \<Rightarrow>
                           (None, s\<lparr>qa_values := qa, check_update := \<not> check_update s\<rparr>)))
               else
                 (case best_next (qa_values s) next_obs of
                    Inl e \<Rightarrow> (Some e, s)
                  | Inr best_q_a \<Rightarrow>
                      (case td_assign_in_place (num_of_action s) (qb_values s) obs action (lr s)
                              (reward + discount_factor s * best_q_a) of
                         (Some e, qb) \<Rightarrow> (Some e, s\<lparr>qb_values := qb\<rparr>)
                       | (None, qb) \<Rightarrow>
                           (None, s\<lparr>qb_values := qb, check_update := \<not> check_update s\<rparr>)))))"

subsection \<open>Monte Carlo update\<close>

text \<open>Reading a Python list at an index taken from \<^verbatim>\<open>range(...)\<close>.\<close>

definition list_get :: "'a list \<Rightarrow> nat \<Rightarrow> error + 'a" where
  "list_get xs i = (if i < length xs then Inr (xs ! i) else Inl IndexError)"

text \<open>
  The return loop: \<^verbatim>\<open>for i in reversed(range(len(reward_hist)))\<close>, with the running \<open>G\<close>
  and the pre-allocated \<^verbatim>\<open>return_list\<close>. \<open>returns_loop \<dots> (Suc i) \<dots>\<close> runs the body at
  index \<open>i\<close> and continues below it.
\<close>

fun returns_loop :: "real \<Rightarrow> real list \<Rightarrow> nat \<Rightarrow> real \<Rightarrow> real list \<Rightarrow> real list" where
  "returns_loop discount rewards 0 G return_list = return_list"
| "returns_loop discount rewards (Suc i) G return_list =
     (let G' = rewards ! i + discount * G
      in returns_loop discount rewards i G' (return_list[i := G']))"

definition compute_returns :: "real \<Rightarrow> real list \<Rightarrow> real list" where
  "compute_returns discount rewards =
     returns_loop discount rewards (length rewards) 0 (replicate (length rewards) 0)"

text \<open>
  \<^verbatim>\<open>alpha = 1 / self.n_values[state][action]\<close>. A zero count raises for a Python float
  (a row stored by \<^verbatim>\<open>load_q_value\<close>); for a numpy float the quotient is \<^verbatim>\<open>inf\<close>, which
  the reals do not have, so that case stops as well.
\<close>

definition step_size :: "real \<Rightarrow> error + real" where
  "step_size c = (if c = 0 then Inl ZeroDivisionError else Inr (1 / c))"

text \<open>
  The body of the first-visit branch for step \<open>t\<close>: increment the count, compute the step
  size, move the value towards \<^verbatim>\<open>return_list[t]\<close>.
\<close>

definition first_visit ::
    "int \<Rightarrow> real list \<Rightarrow> nat \<Rightarrow> state_key \<Rightarrow> int \<Rightarrow> table \<times> table \<Rightarrow> error + table \<times> table" where
  "first_visit n return_list t state action qn =
     (case qn of (q, nv) \<Rightarrow>
        ebind (dd_get n nv state) (\<lambda>(nrow, nv1).
        ebind (vec_get nrow action) (\<lambda>c.
        ebind (vec_set nrow action (c + 1)) (\<lambda>nrow'.
        ebind (step_size (c + 1)) (\<lambda>alpha.
        ebind (dd_get n q state) (\<lambda>(qrow, q1).
        ebind (vec_get qrow action) (\<lambda>old.
        ebind (list_get return_list t) (\<lambda>g.
        ebind (vec_set qrow action (old + alpha * (g - old))) (\<lambda>qrow'.
          Inr (tbl_store state qrow' q1, tbl_store state nrow' nv1))))))))))"

text \<open>
  The scan \<^verbatim>\<open>for t in range(len(self.obs_hist))\<close> over the list of indices, threading the
  two tables and the set \<^verbatim>\<open>visited_states\<close>. A pair is in the set by the numeric value of
  its state tuple and its action.
\<close>

fun mc_scan :: "int \<Rightarrow> state_key list \<Rightarrow> int list \<Rightarrow> real list \<Rightarrow> nat list
    \<Rightarrow> table \<times> table \<Rightarrow> (real list \<times> int) set \<Rightarrow> error + table \<times> table" where
  "mc_scan n obs acts return_list [] qn visited_states = Inr qn"
| "mc_scan n obs acts return_list (t # ts) qn visited_states =
     ebind (list_get obs t) (\<lambda>state.
     ebind (list_get acts t) (\<lambda>action.
       if (key_val state, action) \<notin> visited_states then
         ebind (first_visit n return_list t state action qn) (\<lambda>qn'.
           mc_scan n obs acts return_list ts qn' (insert (key_val state, action) visited_states))
       else mc_scan n obs acts return_list ts qn visited_states))"

text \<open>\<^verbatim>\<open>MC.update(done, obs, action, reward_value)\<close>.\<close>

definition MC_update :: "agent \<Rightarrow> bool \<Rightarrow> real list \<Rightarrow> int \<Rightarrow> real \<Rightarrow> error + agent" where
  "MC_update s done obs action reward_value =
     ebind (discretize_state s obs) (\<lambda>obs.
       if \<not> done then
         Inr (s\<lparr>obs_hist := obs_hist s @ [obs],
                action_hist := action_hist s @ [action],
                reward_hist := reward_hist s @ [reward_value]\<rparr>)
       else
         (let return_list = compute_returns (discount_factor s) (reward_hist s) in
          ebind (mc_scan (num_of_action s) (obs_hist s) (action_hist s) return_list
                   [0 ..< length (obs_hist s)] (q_values s, n_values s) {}) (\<lambda>(q, nv).
            Inr (s\<lparr>q_values := q, n_values := nv,
                   obs_hist := [], action_hist := [], reward_hist := []\<rparr>))))"

subsection \<open>Checkpoints: \<^verbatim>\<open>save_q_value\<close> and \<^verbatim>\<open>load_q_value\<close>\<close>

text \<open>
  The checkpoint file is the JSON document the source dumps and loads: one object per
  section, each mapping the text of a state tuple to a list of numbers. A Python dict
  with string keys is an association list in insertion order; \<^verbatim>\<open>json.load\<close> of what
  \<^verbatim>\<open>json.dump\<close> wrote gives the same document back (numbers idealised as reals), so the
  file is identified with its document. The \<^verbatim>\<open>path\<close> and \<^verbatim>\<open>filename\<close> arguments only
  name the file.
\<close>

type_synonym json_table = "(string \<times> real list) list"

type_synonym checkpoint = "(string \<times> json_table) list"

text \<open>\<^verbatim>\<open>d[key] = value\<close> on a dict with string keys.\<close>

fun dict_set :: "string \<Rightarrow> 'v \<Rightarrow> (string \<times> 'v) list \<Rightarrow> (string \<times> 'v) list" where
  "dict_set k v [] = [(k, v)]"
| "dict_set k v ((k', v') # d) = (if k' = k then (k', v) # d else (k', v') # dict_set k v d)"

text \<open>\<^verbatim>\<open>str\<close> of an int: its decimal digits, with a minus sign when negative.\<close>

definition digit_char :: "nat \<Rightarrow> char" where
  "digit_char d = char_of (48 + d)"

fun str_nat :: "nat \<Rightarrow> string" where
  "str_nat n = (if n < 10 then [digit_char n] else str_nat (n div 10) @ [digit_char (n mod 10)])"

declare str_nat.simps [simp del]

definition str_int :: "int \<Rightarrow> string" where
  "str_int i = (if i < 0 then CHR ''-'' # str_nat (nat (- i)) else str_nat (nat i))"

text \<open>
  \<^verbatim>\<open>str\<close> of a tuple of numbers. \<open>repr_float\<close> stands for Python's \<^verbatim>\<open>repr\<close> of a float, which
  is not a function of this repository.
\<close>

fun str_num :: "(real \<Rightarrow> string) \<Rightarrow> pynum \<Rightarrow> string" where
  "str_num repr_float (PyInt i) = str_int i"
| "str_num repr_float (PyFloat x) = repr_float x"

fun join_comma :: "string list \<Rightarrow> string" where
  "join_comma [] = []"
| "join_comma [x] = x"
| "join_comma (x # y # ys) = x @ '', '' @ join_comma (y # ys)"

definition str_tuple :: "(real \<Rightarrow> string) \<Rightarrow> state_key \<Rightarrow> string" where
  "str_tuple repr_float k =
     (case k of
        [x] \<Rightarrow> ''('' @ str_num repr_float x @ '',)''
      | _ \<Rightarrow> ''('' @ join_comma (map (str_num repr_float) k) @ '')'')"

text \<open>
  The two dict comprehensions of \<^verbatim>\<open>save_q_value\<close>, run over the items of a table in
  order: \<^verbatim>\<open>{str(k): v.tolist() ...}\<close>, where \<^verbatim>\<open>.tolist()\<close> turns an array into a list
  and does not exist on a list, and \<^verbatim>\<open>{str(k): v ...}\<close>.
\<close>

definition tolist :: "vec \<Rightarrow> error + vec" where
  "tolist v = (case v of NdArray xs \<Rightarrow> Inr (PyList xs) | PyList xs \<Rightarrow> Inl AttributeError)"

fun str_keys_tolist ::
    "(real \<Rightarrow> string) \<Rightarrow> table \<Rightarrow> (string \<times> vec) list \<Rightarrow> error + (string \<times> vec) list" where
  "str_keys_tolist repr_float [] d = Inr d"
| "str_keys_tolist repr_float ((k, v) # t) d =
     ebind (tolist v) (\<lambda>l. str_keys_tolist repr_float t (dict_set (str_tuple repr_float k) l d))"

fun str_keys_raw :: "(real \<Rightarrow> string) \<Rightarrow> table \<Rightarrow> (string \<times> vec) list \<Rightarrow> (string \<times> vec) list" where
  "str_keys_raw repr_float [] d = d"
| "str_keys_raw repr_float ((k, v) # t) d =
     str_keys_raw repr_float t (dict_set (str_tuple repr_float k) v d)"

text \<open>\<^verbatim>\<open>try: ... .tolist() ... except: ...\<close>: any failure of the first falls back to the second.\<close>

definition str_keys :: "(real \<Rightarrow> string) \<Rightarrow> table \<Rightarrow> (string \<times> vec) list" where
  "str_keys repr_float t =
     (case str_keys_tolist repr_float t [] of
        Inr d \<Rightarrow> d
      | Inl _ \<Rightarrow> str_keys_raw repr_float t [])"

text \<open>\<^verbatim>\<open>json.dump\<close>: lists of numbers are written, a numpy array is not serialisable.\<close>

fun is_list :: "vec \<Rightarrow> bool" where
  "is_list (PyList _) = True"
| "is_list (NdArray _) = False"

definition json_dump :: "(string \<times> (string \<times> vec) list) list \<Rightarrow> error + checkpoint" where
  "json_dump model_params =
     (if list_all (\<lambda>(name, d). list_all (\<lambda>(k, v). is_list v) d) model_params
      then Inr (map (\<lambda>(name, d). (name, map (\<lambda>(k, v). (k, elems v)) d)) model_params)
      else Inl TypeError)"

definition save_q_value :: "(real \<Rightarrow> string) \<Rightarrow> agent \<Rightarrow> error + checkpoint" where
  "save_q_value repr_float s =
     (let q_values_str_keys = str_keys repr_float (q_values s) in
      if control_type s = MONTE_CARLO then
        (let n_values_str_keys = str_keys repr_float (n_values s) in
         json_dump [(''q_values'', q_values_str_keys), (''n_values'', n_values_str_keys)])
      else if control_type s = DOUBLE_Q_LEARNING then
        ebind (str_keys_tolist repr_float (qa_values s) []) (\<lambda>qa_values_str_keys.
        ebind (str_keys_tolist repr_float (qb_values s) []) (\<lambda>qb_values_str_keys.
          json_dump [(''qa_values'', qa_values_str_keys), (''qb_values'', qb_values_str_keys)]))
      else
        json_dump [(''q_values'', q_values_str_keys)])"

text \<open>
  The string operations of \<^verbatim>\<open>load_q_value\<close>: \<^verbatim>\<open>state.strip('()')\<close> removes leading and
  trailing parentheses, \<^verbatim>\<open>state.replace('(', '').replace(')', '')\<close> removes all of them,
  \<^verbatim>\<open>.split(', ')\<close> cuts at every comma followed by a space, scanning from the left.
\<close>

definition is_paren :: "char \<Rightarrow> bool" where
  "is_paren c \<longleftrightarrow> c = CHR ''('' \<or> c = CHR '')''"

definition strip_parens :: "string \<Rightarrow> string" where
  "strip_parens s = rev (dropWhile is_paren (rev (dropWhile is_paren s)))"

definition remove_parens :: "string \<Rightarrow> string" where
  "remove_parens s = filter (\<lambda>c. c \<noteq> CHR '')'') (filter (\<lambda>c. c \<noteq> CHR ''('') s)"

fun split_comma :: "string \<Rightarrow> string \<Rightarrow> string list" where
  "split_comma piece [] = [rev piece]"
| "split_comma piece (c # cs) =
     (case cs of
        [] \<Rightarrow> split_comma (c # piece) cs
      | d # ds \<Rightarrow>
          if c = CHR '','' \<and> d = CHR '' '' then rev piece # split_comma [] ds
          else split_comma (c # piece) cs)"

fun map_err :: "('a \<Rightarrow> error + 'b) \<Rightarrow> 'a list \<Rightarrow> error + 'b list" where
  "map_err f [] = Inr []"
| "map_err f (x # xs) = ebind (f x) (\<lambda>y. ebind (map_err f xs) (\<lambda>ys. Inr (y # ys)))"

text \<open>
  \<^verbatim>\<open>tuple(map(float, text.split(', ')))\<close>. \<open>float_of\<close> stands for Python's \<^verbatim>\<open>float\<close> on a
  string, which is not a function of this repository; the key it gives is a tuple of
  floats.
\<close>

definition float_tuple :: "(string \<Rightarrow> error + real) \<Rightarrow> string \<Rightarrow> error + state_key" where
  "float_tuple float_of text =
     ebind (map_err float_of (split_comma [] text)) (\<lambda>xs. Inr (map PyFloat xs))"

text \<open>
  One loop of \<^verbatim>\<open>load_q_value\<close> over the items of a section: parse the key text with
  \<open>unparen\<close> (one of the two ways above), store a copy of the list under the key.
\<close>

fun load_items :: "(string \<Rightarrow> error + real) \<Rightarrow> (string \<Rightarrow> string) \<Rightarrow> json_table \<Rightarrow> table
    \<Rightarrow> error + table" where
  "load_items float_of unparen [] t = Inr t"
| "load_items float_of unparen ((state, vals) # d) t =
     ebind (float_tuple float_of (unparen state)) (\<lambda>tuple_state.
       load_items float_of unparen d (tbl_store tuple_state (PyList vals) t))"

text \<open>\<^verbatim>\<open>data[name]\<close>: a missing section raises.\<close>

definition section_of :: "checkpoint \<Rightarrow> string \<Rightarrow> error + json_table" where
  "section_of data name = (case map_of data name of Some d \<Rightarrow> Inr d | None \<Rightarrow> Inl KeyError)"

text \<open>
  \<^verbatim>\<open>load_q_value\<close>. The Double Q-Learning branch returns early, so the test for
  \<^verbatim>\<open>DOUBLE_Q_LEARNING\<close> inside the later \<^verbatim>\<open>q_values\<close> loop of the source is never true
  there.
\<close>

definition load_q_value :: "(string \<Rightarrow> error + real) \<Rightarrow> agent \<Rightarrow> checkpoint \<Rightarrow> error + agent" where
  "load_q_value float_of s data =
     (if control_type s = DOUBLE_Q_LEARNING then
        ebind (section_of data ''qa_values'') (\<lambda>data_qa_values.
        ebind (section_of data ''qb_values'') (\<lambda>data_qb_values.
        ebind (load_items float_of strip_parens data_qa_values (qa_values s)) (\<lambda>qa.
        ebind (load_items float_of strip_parens data_qb_values (qb_values s)) (\<lambda>qb.
          Inr (s\<lparr>qa_values := qa, qb_values := qb\<rparr>)))))
      else
        ebind (section_of data ''q_values'') (\<lambda>data_q_values.
        ebind (load_items float_of remove_parens data_q_values (q_values s)) (\<lambda>q.
          if control_type s = MONTE_CARLO then
            ebind (section_of data ''n_values'') (\<lambda>data_n_values.
            ebind (load_items float_of remove_parens data_n_values (n_values s)) (\<lambda>nv.
              Inr (s\<lparr>q_values := q, n_values := nv\<rparr>)))
          else Inr (s\<lparr>q_values := q\<rparr>))))"

text \<open>The value the Python expression \<^verbatim>\<open>t[k][a]\<close> evaluates to on a \<^verbatim>\<open>defaultdict\<close>.\<close>

definition tbl_read :: "int \<Rightarrow> table \<Rightarrow> state_key \<Rightarrow> int \<Rightarrow> error + real" where
  "tbl_read n t k a = ebind (dd_get n t k) (\<lambda>(v, _). vec_get v a)"

section \<open>Vocabulary of the properties, and example agents\<close>

subsection \<open>For: Action selection with two tables\<close>

definition c1_agent :: agent where
  "c1_agent = (init DOUBLE_Q_LEARNING 2 [-1, 1] [5, 5, 5, 5] (1/2) 0 1 0 (1/2))
     \<lparr> qa_values := [([PyInt 0, PyInt 0, PyInt 0, PyInt 0], NdArray [1, 0])],
       qb_values := [([PyInt 0, PyInt 0, PyInt 0, PyInt 0], NdArray [0, 1])] \<rparr>"

subsection \<open>For: Action mapping\<close>

text \<open>A real that is a float: rounding leaves it as it is.\<close>

definition is_float64 :: "real \<Rightarrow> bool" where
  "is_float64 x \<longleftrightarrow> float64 x = Finite x"

definition c8_agent :: agent where
  "c8_agent = init Q_LEARNING 11 [-20, 20] [5, 5, 5, 5] (1/10) 1 (9995/10000) (1/100) (1/2)"

text \<open>
  The range \<^verbatim>\<open>[-1e9, 0.1]\<close>: the Python literal \<^verbatim>\<open>0.1\<close> is the float
  \<open>3602879701896397 / 2^55\<close>.
\<close>

definition c8_wide :: agent where
  "c8_wide = init Q_LEARNING 11 [- 1000000000, 3602879701896397 / 36028797018963968]
     [5, 5, 5, 5] (1/10) 1 (9995/10000) (1/100) (1/2)"

subsection \<open>For: State discretisation: bucket bounds\<close>

text \<open>One dimension of \<^verbatim>\<open>discretize_state\<close>: grid, clip, bucketize.\<close>

definition bucket_of :: "real \<Rightarrow> int \<Rightarrow> real \<Rightarrow> error + int" where
  "bucket_of bound bins raw =
     ebind (linspace (- bound) bound bins)
       (\<lambda>grid. Inr (int (bucketize (torch_clip raw (- bound) bound) grid)))"

text \<open>
  The range and the two edge buckets of one key component \<open>k\<close>, for bound \<open>bound\<close>,
  bin count \<open>B\<close> and raw reading \<open>x\<close>.
\<close>

definition bucket_range :: "real \<Rightarrow> int \<Rightarrow> real \<Rightarrow> int \<Rightarrow> bool" where
  "bucket_range bound B x k \<longleftrightarrow>
     0 \<le> k \<and> k \<le> B
     \<and> (x \<le> - bound \<longrightarrow> k = 0)
     \<and> (bound \<le> x \<longrightarrow> k = (if B \<le> 1 then B else B - 1))"

subsection \<open>For: Epsilon decay\<close>

definition c7_agent :: agent where
  "c7_agent = init Q_LEARNING 11 [-20, 20] [5, 5, 5, 5] (1/10) 1 (9/10) (1/100) (1/2)"

subsection \<open>For: Double Q-Learning: the update rule and the toggle\<close>

text \<open>The maximum of the row stored for a key, 0 when the key has no entry.\<close>

definition max_or_zero :: "table \<Rightarrow> state_key \<Rightarrow> real" where
  "max_or_zero t k = (case tbl_lookup t k of None \<Rightarrow> 0 | Some v \<Rightarrow> Max (set (elems v)))"

text \<open>
  The temporal-difference write of one call of agent \<open>s\<close>: the cell \<open>[k][a]\<close> of the
  selected table held \<open>old\<close> before (\<open>sel\<close>) and holds the updated value after (\<open>sel'\<close>),
  the maximum for \<open>k'\<close> taken in the other table.
\<close>

definition td_written ::
    "agent \<Rightarrow> table \<Rightarrow> table \<Rightarrow> state_key \<Rightarrow> int \<Rightarrow> real \<Rightarrow> state_key \<Rightarrow> real \<Rightarrow> table \<Rightarrow> bool" where
  "td_written s sel other k a r k' old sel' \<longleftrightarrow>
     tbl_read (num_of_action s) sel k a = Inr old
     \<and> tbl_read (num_of_action s) sel' k a
         = Inr (old + lr s * (r + discount_factor s * max_or_zero other k' - old))"

definition c5_agent :: agent where
  "c5_agent = init DOUBLE_Q_LEARNING 2 [-20, 20] [5, 5, 5, 5] (1/2) 0 1 0 (9/10)"

text \<open>The agent after a call with the action index 2, which its rows of two slots do not have.\<close>

definition c6_raised :: agent where
  "c6_raised = c5_agent\<lparr>qa_values := [([PyInt 2, PyInt 2, PyInt 2, PyInt 2], NdArray [0, 0])]\<rparr>"

definition c6_s1 :: agent where
  "c6_s1 = c5_agent\<lparr>qa_values := [([PyInt 2, PyInt 2, PyInt 2, PyInt 2], NdArray [0, 1/2])],
                     check_update := False\<rparr>"

definition c6_s2 :: agent where
  "c6_s2 = c6_s1\<lparr>qb_values := [([PyInt 2, PyInt 2, PyInt 2, PyInt 2], NdArray [0, 29/40])],
                  check_update := True\<rparr>"

subsection \<open>For: Monte Carlo: returns and the first-visit scan\<close>

text \<open>
  The row a key stands for (zeros when absent), one cell of it, and the two invariants of
  the spec's data model: every stored row has \<open>num_of_action\<close> slots, and visit counts
  are not negative.
\<close>

definition row_of :: "int \<Rightarrow> table \<Rightarrow> state_key \<Rightarrow> real list" where
  "row_of n t k = (case tbl_lookup t k of Some v \<Rightarrow> elems v | None \<Rightarrow> replicate (nat n) 0)"

definition cell :: "int \<Rightarrow> table \<Rightarrow> state_key \<Rightarrow> int \<Rightarrow> real" where
  "cell n t k a = row_of n t k ! nat a"

definition tbl_shaped :: "int \<Rightarrow> table \<Rightarrow> bool" where
  "tbl_shaped n t \<longleftrightarrow> (\<forall>(k, v) \<in> set t. length (elems v) = nat n)"

definition tbl_nonneg :: "table \<Rightarrow> bool" where
  "tbl_nonneg t \<longleftrightarrow> (\<forall>(k, v) \<in> set t. \<forall>x \<in> set (elems v). 0 \<le> x)"

text \<open>
  The (state, action) pair recorded at step \<open>t\<close>, as the set \<^verbatim>\<open>visited_states\<close> sees it; the
  first step of a list of steps that records a given pair not yet in the set; and what the
  scan has done to the cell of a pair, given that first step.
\<close>

definition pair_at :: "state_key list \<Rightarrow> int list \<Rightarrow> nat \<Rightarrow> real list \<times> int" where
  "pair_at obs acts t = (key_val (obs ! t), acts ! t)"

definition first_new ::
    "state_key list \<Rightarrow> int list \<Rightarrow> nat list \<Rightarrow> (real list \<times> int) set \<Rightarrow> real list \<times> int \<Rightarrow> nat option" where
  "first_new obs acts ts V p = (if p \<in> V then None else find (\<lambda>t. pair_at obs acts t = p) ts)"

definition scan_post ::
    "int \<Rightarrow> real list \<Rightarrow> table \<times> table \<Rightarrow> table \<times> table \<Rightarrow> state_key \<Rightarrow> int \<Rightarrow> nat option \<Rightarrow> bool" where
  "scan_post n rl qn qn' k a first =
     (case first of
        None \<Rightarrow> cell n (fst qn') k a = cell n (fst qn) k a
               \<and> cell n (snd qn') k a = cell n (snd qn) k a
      | Some t0 \<Rightarrow> cell n (snd qn') k a = cell n (snd qn) k a + 1
               \<and> cell n (fst qn') k a = cell n (fst qn) k a
                    + (1 / (cell n (snd qn) k a + 1)) * (rl ! t0 - cell n (fst qn) k a))"

text \<open>Step \<open>t\<close> is the first one of the episode that records its (state, action) pair.\<close>

definition first_occurrence :: "state_key list \<Rightarrow> int list \<Rightarrow> nat \<Rightarrow> bool" where
  "first_occurrence obs acts t \<longleftrightarrow>
     t < length obs \<and> (\<forall>t' < t. pair_at obs acts t' \<noteq> pair_at obs acts t)"

definition c3_agent :: agent where
  "c3_agent = (init MONTE_CARLO 2 [-20, 20] [5, 5, 5, 5] (1/10) 0 1 0 1)
     \<lparr> obs_hist := [[PyInt 2, PyInt 2, PyInt 2, PyInt 2], [PyInt 2, PyInt 2, PyInt 2, PyInt 2]],
       action_hist := [1, 1], reward_hist := [1, 1] \<rparr>"

definition c3_done :: agent where
  "c3_done = c3_agent
     \<lparr> q_values := [([PyInt 2, PyInt 2, PyInt 2, PyInt 2], NdArray [0, 2])],
       n_values := [([PyInt 2, PyInt 2, PyInt 2, PyInt 2], NdArray [0, 1])],
       obs_hist := [], action_hist := [], reward_hist := [] \<rparr>"

subsection \<open>For: Checkpoints: loading merges\<close>

text \<open>
  Python's \<^verbatim>\<open>float\<close> on the texts that \<^verbatim>\<open>str\<close> gives for ints: an optional minus sign and
  decimal digits. Other texts that \<^verbatim>\<open>float\<close> accepts are rejected here; this parser only
  instantiates \<open>float_of\<close> in examples.
\<close>

definition digit_val :: "char \<Rightarrow> nat option" where
  "digit_val c = (if 48 \<le> (of_char c :: nat) \<and> (of_char c :: nat) \<le> 57
                  then Some (of_char c - 48) else None)"

fun nat_of_digits :: "nat \<Rightarrow> string \<Rightarrow> nat option" where
  "nat_of_digits acc [] = Some acc"
| "nat_of_digits acc (c # cs) =
     (case digit_val c of None \<Rightarrow> None | Some d \<Rightarrow> nat_of_digits (10 * acc + d) cs)"

definition float_dec :: "string \<Rightarrow> error + real" where
  "float_dec text =
     (case text of
        [] \<Rightarrow> Inl ValueError
      | c # cs \<Rightarrow>
          if c = CHR ''-'' then
            (case cs of
               [] \<Rightarrow> Inl ValueError
             | _ \<Rightarrow> (case nat_of_digits 0 cs of
                       Some n \<Rightarrow> Inr (- real n) | None \<Rightarrow> Inl ValueError))
          else (case nat_of_digits 0 text of
                  Some n \<Rightarrow> Inr (real n) | None \<Rightarrow> Inl ValueError))"

text \<open>
  Table \<open>t'\<close> is table \<open>t\<close> with the section \<open>d\<close> merged in: a key that some entry of the
  section parses to holds the list of such an entry; every other key looks up what it did
  in \<open>t\<close>.
\<close>

definition merged :: "(string \<Rightarrow> error + state_key) \<Rightarrow> json_table \<Rightarrow> table \<Rightarrow> table \<Rightarrow> bool" where
  "merged parse d t t' \<longleftrightarrow>
     (\<forall>k. if \<exists>(text, vals) \<in> set d. \<exists>k'. parse text = Inr k' \<and> key_val k' = key_val k
          then \<exists>(text, vals) \<in> set d. \<exists>k'. parse text = Inr k' \<and> key_val k' = key_val k
                 \<and> tbl_lookup t' k = Some (PyList vals)
          else tbl_lookup t' k = tbl_lookup t k)"

definition c10_agent :: agent where
  "c10_agent = (init Q_LEARNING 2 [-20, 20] [5, 5, 5, 5] (1/10) 1 (9/10) (1/100) (1/2))
     \<lparr> q_values := [([PyInt 2, PyInt 2, PyInt 2, PyInt 2], NdArray [1, 2]),
                    ([PyInt 0, PyInt 0, PyInt 0, PyInt 0], NdArray [3, 4])] \<rparr>"

definition c10_file :: checkpoint where
  "c10_file = [(''q_values'', [(''(2, 2, 2, 2)'', [5, 6])])]"

definition c10_after :: agent where
  "c10_after = c10_agent
     \<lparr> q_values := [([PyInt 2, PyInt 2, PyInt 2, PyInt 2], PyList [5, 6]),
                    ([PyInt 0, PyInt 0, PyInt 0, PyInt 0], NdArray [3, 4])] \<rparr>"

subsection \<open>For: Checkpoints: the text of a key and back\<close>

text \<open>Characters that are none of the separators of a tuple's text.\<close>

definition plain_char :: "char \<Rightarrow> bool" where
  "plain_char c \<longleftrightarrow> c \<noteq> CHR ''('' \<and> c \<noteq> CHR '')'' \<and> c \<noteq> CHR '','' \<and> c \<noteq> CHR '' ''"

text \<open>Keys made of Python ints, as \<^verbatim>\<open>discretize_state\<close> returns them.\<close>

fun is_int :: "pynum \<Rightarrow> bool" where
  "is_int (PyInt _) = True"
| "is_int (PyFloat _) = False"

fun int_of :: "pynum \<Rightarrow> int" where
  "int_of (PyInt i) = i"
| "int_of (PyFloat _) = 0"

subsection \<open>For: Checkpoints: saving and loading back\<close>

text \<open>
  A table as training leaves it: one entry per key (a dict), keys that are 4-tuples of
  ints, rows that are numpy arrays.
\<close>

definition saveable :: "table \<Rightarrow> bool" where
  "saveable t \<longleftrightarrow>
     distinct (map (\<lambda>(k, v). key_val k) t)
     \<and> list_all (\<lambda>(k, v). length k = 4 \<and> list_all is_int k \<and> \<not> is_list v) t"

text \<open>Table \<open>t'\<close> maps every key to the list of the numbers that \<open>t\<close> maps it to.\<close>

definition same_rows :: "table \<Rightarrow> table \<Rightarrow> bool" where
  "same_rows t t' \<longleftrightarrow>
     (\<forall>k. tbl_lookup t' k = map_option (\<lambda>v. PyList (elems v)) (tbl_lookup t k))"

text \<open>The section written for a table: the text of each key with the numbers of its row.\<close>

definition json_of :: "(real \<Rightarrow> string) \<Rightarrow> table \<Rightarrow> json_table" where
  "json_of repr_float t = map (\<lambda>(k, v). (str_tuple repr_float k, elems v)) t"

text \<open>
  Python's \<^verbatim>\<open>repr\<close> on floats with an integral value of fewer than 17 digits; it
  instantiates \<open>repr_float\<close> in examples, where every key is made of ints.
\<close>

definition repr_dec :: "real \<Rightarrow> string" where
  "repr_dec x = str_int (floor x) @ ''.0''"

definition c4_file :: checkpoint where
  "c4_file = [(''qa_values'', [(''(2, 2, 2, 2)'', [0, 1/2])]), (''qb_values'', [])]"

definition c4_reloaded :: agent where
  "c4_reloaded = c6_s1\<lparr>qa_values := [([PyInt 2, PyInt 2, PyInt 2, PyInt 2], PyList [0, 1/2])]\<rparr>"

section \<open>Properties\<close>

subsection \<open>Results that are errors or values\<close>

lemma ebind_Inr [simp]: "ebind (Inr x) f = f x"
  by (simp add: ebind_def)

lemma ebind_Inl [simp]: "ebind (Inl e) f = Inl e"
  by (simp add: ebind_def)

lemma ebind_eq_Inr: "ebind m f = Inr y \<longleftrightarrow> (\<exists>x. m = Inr x \<and> f x = Inr y)"
  by (cases m) simp_all

subsection \<open>Tables and vectors\<close>

lemma tbl_lookup_store:
  "tbl_lookup (tbl_store k v t) k' = (if key_val k' = key_val k then Some v else tbl_lookup t k')"
  by (induction t) auto

lemma tbl_lookup_cong: "key_val k = key_val k' \<Longrightarrow> tbl_lookup t k = tbl_lookup t k'"
  by (induction t) auto

lemma py_index_bound: "py_index n i = Inr j \<Longrightarrow> j < n"
  by (auto simp: py_index_def split: if_splits)

lemma elems_with_elems [simp]: "elems (with_elems v ys) = ys"
  by (cases v) simp_all

lemma vec_get_set:
  "vec_get v a = Inr old \<Longrightarrow> \<exists>v'. vec_set v a x = Inr v' \<and> vec_get v' a = Inr x
     \<and> length (elems v') = length (elems v)"
proof -
  assume "vec_get v a = Inr old"
  then obtain j where j: "py_index (length (elems v)) a = Inr j"
    by (auto simp: vec_get_def ebind_eq_Inr)
  then have "j < length (elems v)" by (rule py_index_bound)
  then show ?thesis by (simp add: vec_get_def vec_set_def j)
qed

lemma td_assign_cell:
  assumes "tbl_read n t k a = Inr old"
  shows "\<exists>t'. td_assign n t k a rate target = Inr t'
           \<and> tbl_read n t' k a = Inr (old + rate * (target - old))"
proof -
  from assms obtain row t1 where g: "dd_get n t k = Inr (row, t1)" and r: "vec_get row a = Inr old"
    by (auto simp: tbl_read_def ebind_eq_Inr)
  from vec_get_set [OF r] obtain row' where
    w: "vec_set row a (old + rate * (target - old)) = Inr row'"
    and r': "vec_get row' a = Inr (old + rate * (target - old))"
    by blast
  have "td_assign n t k a rate target = Inr (tbl_store k row' t1)"
    by (simp add: td_assign_def g r w)
  moreover have "tbl_read n (tbl_store k row' t1) k a = Inr (old + rate * (target - old))"
    by (simp add: tbl_read_def dd_get_def tbl_lookup_store r')
  ultimately show ?thesis by blast
qed

lemma fold_max_Max: "fold max xs (x::real) = Max (set (x # xs))"
proof (induction xs arbitrary: x)
  case Nil
  show ?case by simp
next
  case (Cons y ys)
  have "fold max (y # ys) x = Max (set (max y x # ys))" by (simp add: Cons.IH)
  also have "\<dots> = Max (set (x # y # ys))"
    by (cases ys) (simp_all add: max.commute max.left_commute max.assoc)
  finally show ?case .
qed

lemma np_max_Max: "xs \<noteq> [] \<Longrightarrow> np_max xs = Inr (Max (set xs))"
  by (cases xs) (simp_all add: np_max_def fold_max_Max del: fold_simps)

subsection \<open>Action selection with two tables\<close>

lemma dd_get_hit: "tbl_lookup t k = Some v \<Longrightarrow> dd_get n t k = Inr (v, t)"
  by (simp add: dd_get_def)

lemma py_index_nat: "j < n \<Longrightarrow> py_index n (int j) = Inr j"
  by (simp add: py_index_def)

lemma vec_get_nat: "j < length (elems v) \<Longrightarrow> vec_get v (int j) = Inr (elems v ! j)"
  by (simp add: vec_get_def py_index_nat)

lemma argmax_scan_bound: "best < i \<Longrightarrow> argmax_scan best bv i xs < i + length xs"
proof (induction xs arbitrary: best bv i)
  case Nil
  then show ?case by simp
next
  case (Cons x xs)
  have "argmax_scan i x (Suc i) xs < Suc i + length xs"
    by (rule Cons.IH) simp
  moreover have "argmax_scan best bv (Suc i) xs < Suc i + length xs"
    by (rule Cons.IH) (use Cons.prems in simp)
  ultimately show ?case by simp
qed

lemma np_argmax_bound: "np_argmax xs = Inr a \<Longrightarrow> a < length xs"
proof (cases xs)
  case Nil
  assume "np_argmax xs = Inr a"
  with Nil show ?thesis by (simp add: np_argmax_def)
next
  case (Cons x rest)
  assume "np_argmax xs = Inr a"
  with Cons have "a = argmax_scan 0 x 1 rest" by (simp add: np_argmax_def)
  moreover have "argmax_scan 0 x 1 rest < 1 + length rest"
    by (rule argmax_scan_bound) simp
  ultimately show ?thesis using Cons by simp
qed

lemma argmax_scan_first_max:
  assumes "length pre = i" and "best < i" and "bv = (pre @ xs) ! best"
    and "\<forall>j < i. (pre @ xs) ! j \<le> bv" and "\<forall>j < best. (pre @ xs) ! j < bv"
  shows "argmax_scan best bv i xs < length (pre @ xs)
       \<and> (\<forall>j < length (pre @ xs). (pre @ xs) ! j \<le> (pre @ xs) ! argmax_scan best bv i xs)
       \<and> (\<forall>j < argmax_scan best bv i xs. (pre @ xs) ! j < (pre @ xs) ! argmax_scan best bv i xs)"
  using assms
proof (induction xs arbitrary: pre i best bv)
  case Nil
  then show ?case by simp
next
  case (Cons x xs)
  let ?ys = "pre @ x # xs"
  have ys: "?ys = (pre @ [x]) @ xs" by simp
  have xi: "?ys ! i = x" using Cons.prems(1) by (simp add: nth_append)
  have len: "length (pre @ [x]) = Suc i" using Cons.prems(1) by simp
  show ?case
  proof (cases "bv < x")
    case True
    have 1: "i < Suc i" by simp
    have 2: "x = ((pre @ [x]) @ xs) ! i" using xi by simp
    have 3: "\<forall>j < Suc i. ((pre @ [x]) @ xs) ! j \<le> x"
    proof (intro allI impI)
      fix j assume "j < Suc i"
      then consider "j < i" | "j = i" by linarith
      then show "((pre @ [x]) @ xs) ! j \<le> x"
      proof cases
        case 1
        with Cons.prems(4) have "?ys ! j \<le> bv" by simp
        with True show ?thesis by simp
      next
        case 2
        with xi show ?thesis by simp
      qed
    qed
    have 4: "\<forall>j < i. ((pre @ [x]) @ xs) ! j < x"
    proof (intro allI impI)
      fix j assume "j < i"
      with Cons.prems(4) have "?ys ! j \<le> bv" by simp
      with True show "((pre @ [x]) @ xs) ! j < x" by simp
    qed
    from Cons.IH [OF len 1 2 3 4] True show ?thesis by simp
  next
    case False
    have 1: "best < Suc i" using Cons.prems(2) by simp
    have 2: "bv = ((pre @ [x]) @ xs) ! best" using Cons.prems(3) by simp
    have 3: "\<forall>j < Suc i. ((pre @ [x]) @ xs) ! j \<le> bv"
    proof (intro allI impI)
      fix j assume "j < Suc i"
      then consider "j < i" | "j = i" by linarith
      then show "((pre @ [x]) @ xs) ! j \<le> bv"
      proof cases
        case 1
        with Cons.prems(4) show ?thesis by simp
      next
        case 2
        with xi False show ?thesis by simp
      qed
    qed
    have 4: "\<forall>j < best. ((pre @ [x]) @ xs) ! j < bv" using Cons.prems(5) by simp
    from Cons.IH [OF len 1 2 3 4] False show ?thesis by simp
  qed
qed

lemma np_argmax_first_max:
  assumes "np_argmax xs = Inr a"
  shows "a < length xs \<and> (\<forall>j < length xs. xs ! j \<le> xs ! a) \<and> (\<forall>j < a. xs ! j < xs ! a)"
proof (cases xs)
  case Nil
  with assms show ?thesis by (simp add: np_argmax_def)
next
  case (Cons x rest)
  with assms have a: "a = argmax_scan 0 x 1 rest" by (simp add: np_argmax_def)
  have "argmax_scan 0 x 1 rest < length ([x] @ rest)
       \<and> (\<forall>j < length ([x] @ rest). ([x] @ rest) ! j \<le> ([x] @ rest) ! argmax_scan 0 x 1 rest)
       \<and> (\<forall>j < argmax_scan 0 x 1 rest. ([x] @ rest) ! j < ([x] @ rest) ! argmax_scan 0 x 1 rest)"
    by (rule argmax_scan_first_max) simp_all
  then show ?thesis by (simp add: a Cons)
qed

text \<open>
  C1 (as amended). In the Double Q-Learning exploitation branch (the draw \<open>u\<close> is not
  below epsilon), with \<open>a1\<close> the argmax of the first table's vector and \<open>a2\<close> the argmax
  of the second table's vector for the state key, the selected action is \<open>a1\<close> when the
  first table's value at \<open>a1\<close> is greater than or equal to the second table's value at
  \<open>a2\<close>, and \<open>a2\<close> when the second is strictly larger: on an exact tie the first
  table's choice \<open>a1\<close> is returned. Each of \<open>a1\<close>, \<open>a2\<close> indexes a greatest entry of its vector.
\<close>

theorem double_q_select_exploit:
  assumes "control_type s = DOUBLE_Q_LEARNING"
    and "\<not> u < epsilon s"
    and "dd_get (num_of_action s) (qa_values s) k = Inr (qa, ta)"
    and "dd_get (num_of_action s) (qb_values s) k = Inr (qb, tb)"
    and "np_argmax (elems qa) = Inr a1"
    and "np_argmax (elems qb) = Inr a2"
  shows "get_discretize_action s k u r =
           Inr (int (if elems qa ! a1 \<ge> elems qb ! a2 then a1 else a2),
                s\<lparr>qa_values := ta, qb_values := tb\<rparr>)
       \<and> a1 < length (elems qa) \<and> (\<forall>j < length (elems qa). elems qa ! j \<le> elems qa ! a1)
       \<and> a2 < length (elems qb) \<and> (\<forall>j < length (elems qb). elems qb ! j \<le> elems qb ! a2)"
proof -
  note m1 = np_argmax_first_max [OF assms(5)] and m2 = np_argmax_first_max [OF assms(6)]
  have b1: "a1 < length (elems qa)" and b2: "a2 < length (elems qb)"
    using m1 m2 by simp_all
  have "get_discretize_action s k u r =
           Inr (int (if elems qa ! a1 \<ge> elems qb ! a2 then a1 else a2),
                s\<lparr>qa_values := ta, qb_values := tb\<rparr>)"
    unfolding get_discretize_action_def
    using assms b1 b2 by (simp add: vec_get_nat)
  with m1 m2 show ?thesis by blast
qed

theorem double_q_select_exploit_witness:
  "get_discretize_action c1_agent [PyInt 0, PyInt 0, PyInt 0, PyInt 0] (1/2) 1 = Inr (0, c1_agent)"
proof -
  let ?k = "[PyInt 0, PyInt 0, PyInt 0, PyInt 0]"
  have h1: "control_type c1_agent = DOUBLE_Q_LEARNING" by (simp add: c1_agent_def init_def)
  have h2: "\<not> (1/2 :: real) < epsilon c1_agent" by (simp add: c1_agent_def init_def)
  have h3: "dd_get (num_of_action c1_agent) (qa_values c1_agent) ?k
              = Inr (NdArray [1, 0], qa_values c1_agent)"
    by (simp add: c1_agent_def init_def dd_get_def)
  have h4: "dd_get (num_of_action c1_agent) (qb_values c1_agent) ?k
              = Inr (NdArray [0, 1], qb_values c1_agent)"
    by (simp add: c1_agent_def init_def dd_get_def)
  have h5: "np_argmax (elems (NdArray [1, 0])) = Inr 0" by (simp add: np_argmax_def)
  have h6: "np_argmax (elems (NdArray [0, 1])) = Inr 1" by (simp add: np_argmax_def)
  show ?thesis
    using double_q_select_exploit [OF h1 h2 h3 h4 h5 h6, of 1] by simp
qed

text \<open>
  The claim as stated returns the second table's choice on a tie. Here both best values
  are 1, the first table's argmax is 0, the second table's argmax is 1, and 0 is selected.
\<close>

theorem double_q_select_tie_counterexample:
  "np_argmax [1, 0] = Inr 0 \<and> np_argmax [0, 1] = Inr 1
   \<and> [1, 0 :: real] ! 0 = [0, 1] ! 1
   \<and> tbl_lookup (qa_values c1_agent) [PyInt 0, PyInt 0, PyInt 0, PyInt 0] = Some (NdArray [1, 0])
   \<and> tbl_lookup (qb_values c1_agent) [PyInt 0, PyInt 0, PyInt 0, PyInt 0] = Some (NdArray [0, 1])
   \<and> \<not> (1/2 :: real) < epsilon c1_agent
   \<and> get_discretize_action c1_agent [PyInt 0, PyInt 0, PyInt 0, PyInt 0] (1/2) 1
       = Inr (0, c1_agent)
   \<and> get_discretize_action c1_agent [PyInt 0, PyInt 0, PyInt 0, PyInt 0] (1/2) 1
       \<noteq> Inr (1, c1_agent)"
  by (simp add: np_argmax_def c1_agent_def init_def get_discretize_action_def dd_get_def
      vec_get_def py_index_def key_val_def)

subsection \<open>Action mapping\<close>

lemma bit_length_0 [simp]: "bit_length 0 = 0"
  by (subst bit_length.simps) simp

lemma bit_length_Suc_0 [simp]: "bit_length (Suc 0) = Suc 0"
  by (subst bit_length.simps) simp

lemma bit_length_numeral [simp]:
  "bit_length (numeral w) = Suc (bit_length (numeral w div 2))"
  by (subst bit_length.simps) simp

text \<open>
  The rounding is what its name says: \<open>floor_log2\<close> is the binary exponent, the rounded
  value is within half a unit in the last place of the exact one, and rounding a value
  that is already rounded changes nothing.
\<close>

lemma floor_nat_bounds:
  "1 \<le> x \<Longrightarrow> 0 < nat \<lfloor>x\<rfloor> \<and> real (nat \<lfloor>x\<rfloor>) \<le> x \<and> x < real (nat \<lfloor>x\<rfloor>) + 1"
proof -
  assume x: "1 \<le> (x::real)"
  then have f: "1 \<le> \<lfloor>x\<rfloor>" by simp
  then have r: "real (nat \<lfloor>x\<rfloor>) = of_int \<lfloor>x\<rfloor>" by simp
  have "of_int \<lfloor>x\<rfloor> \<le> x" "x < of_int \<lfloor>x\<rfloor> + 1" by linarith+
  with f r show ?thesis by simp
qed

lemma ceiling_nat_bounds:
  "1 < y \<Longrightarrow> 0 < nat (\<lceil>y\<rceil> - 1) \<and> real (nat (\<lceil>y\<rceil> - 1)) < y
     \<and> y \<le> real (nat (\<lceil>y\<rceil> - 1)) + 1"
proof -
  assume y: "1 < (y::real)"
  then have f: "2 \<le> \<lceil>y\<rceil>" by linarith
  then have r: "real (nat (\<lceil>y\<rceil> - 1)) = of_int \<lceil>y\<rceil> - 1" by simp
  have "of_int \<lceil>y\<rceil> - 1 < y" "y \<le> of_int \<lceil>y\<rceil>" by linarith+
  with f r show ?thesis by simp
qed

lemma powi_two_pred: "0 < b \<Longrightarrow> (2::real) powi (int b - 1) = 2 ^ (b - 1)"
proof -
  assume "0 < b"
  then have "int b - 1 = int (b - 1)" by simp
  then show ?thesis by (simp only: power_int_of_nat)
qed

lemma powi_two_pred_succ: "(2::real) powi (int b - 1 + 1) = 2 ^ b"
  by simp

lemma powi_two_neg: "(2::real) powi (- int b) = 1 / 2 ^ b"
  by (simp add: power_int_minus divide_inverse)

lemma powi_two_neg_succ: "0 < b \<Longrightarrow> (2::real) powi (- int b + 1) = 1 / 2 ^ (b - 1)"
proof -
  assume "0 < b"
  then have "- int b + 1 = - int (b - 1)" by simp
  then show ?thesis by (simp only: powi_two_neg)
qed

lemma less_pow_real: "(n::nat) < 2 ^ b \<Longrightarrow> real n + 1 \<le> 2 ^ b"
proof -
  assume "n < 2 ^ b"
  then have "n + 1 \<le> 2 ^ b" by simp
  then have "real (n + 1) \<le> real (2 ^ b)" by (rule of_nat_mono)
  then show ?thesis by simp
qed

lemma pow_le_real: "2 ^ b \<le> (n::nat) \<Longrightarrow> (2::real) ^ b \<le> real n"
proof -
  assume "2 ^ b \<le> n"
  then have "real (2 ^ b) \<le> real n" by (rule of_nat_mono)
  then show ?thesis by simp
qed

lemma inverse_pow_le: "0 < y \<Longrightarrow> y \<le> (2::real) ^ b \<Longrightarrow> 1 / 2 ^ b \<le> 1 / y"
  by (rule divide_left_mono) simp_all

lemma inverse_pow_less: "(2::real) ^ b < y \<Longrightarrow> 1 / y < 1 / 2 ^ b"
proof -
  assume a: "(2::real) ^ b < y"
  have "(0::real) < 2 ^ b" by simp
  with a have "0 < y" by linarith
  with a show ?thesis by (simp add: field_simps)
qed

lemma bit_length_bounds: "0 < n \<Longrightarrow> 2 ^ (bit_length n - 1) \<le> n \<and> n < 2 ^ bit_length n"
proof (induction n rule: bit_length.induct)
  case (1 n)
  show ?case
  proof (cases "n div 2 = 0")
    case True
    with 1(2) have "n = 1" by (simp add: div_eq_0_iff) 
    then show ?thesis by (simp add: bit_length.simps)
  next
    case False
    then have p: "0 < n div 2" by simp
    from 1(2) have n0: "n \<noteq> 0" by simp
    from 1(1) [OF n0 p] have l: "2 ^ (bit_length (n div 2) - 1) \<le> n div 2"
      and u: "n div 2 < 2 ^ bit_length (n div 2)" by simp_all
    have b: "bit_length n = Suc (bit_length (n div 2))" using n0 by (subst bit_length.simps) simp
    have pos: "0 < bit_length (n div 2)" using p by (subst bit_length.simps) simp
    then have e: "bit_length (n div 2) = Suc (bit_length (n div 2) - 1)" by simp
    have "2 ^ (bit_length n - 1) = 2 * 2 ^ (bit_length (n div 2) - 1)"
      by (simp add: b) (subst e, simp)
    also have "\<dots> \<le> 2 * (n div 2)" using l by simp
    also have "\<dots> \<le> n" by simp
    finally have 1: "2 ^ (bit_length n - 1) \<le> n" .
    from u have "n div 2 + 1 \<le> 2 ^ bit_length (n div 2)" by simp
    then have "2 * (n div 2) + 2 \<le> 2 * 2 ^ bit_length (n div 2)" by simp
    moreover have "n < 2 * (n div 2) + 2" by presburger
    ultimately have "n < 2 ^ bit_length n" by (simp add: b)
    with 1 show ?thesis by simp
  qed
qed

lemma bit_length_pos: "0 < n \<Longrightarrow> 0 < bit_length n"
  by (subst bit_length.simps) simp

lemma floor_log2_bounds:
  assumes "0 < x"
  shows "2 powi floor_log2 x \<le> x \<and> x < 2 powi (floor_log2 x + 1)"
proof (cases "1 \<le> x")
  case True
  define n where "n = nat \<lfloor>x\<rfloor>"
  from floor_nat_bounds [OF True] have n: "0 < n" "real n \<le> x" "x < real n + 1"
    unfolding n_def by blast+
  from bit_length_bounds [OF n(1)] have l: "2 ^ (bit_length n - 1) \<le> n"
    and u: "n < 2 ^ bit_length n" by simp_all
  have f: "floor_log2 x = int (bit_length n) - 1" using True by (simp add: floor_log2_def n_def)
  have "(2::real) powi floor_log2 x = 2 ^ (bit_length n - 1)"
    unfolding f by (rule powi_two_pred [OF bit_length_pos [OF n(1)]])
  moreover have "(2::real) powi (floor_log2 x + 1) = 2 ^ bit_length n"
    unfolding f by (rule powi_two_pred_succ)
  moreover note pow_le_real [OF l] less_pow_real [OF u] n(2,3)
  ultimately show ?thesis by linarith
next
  case False
  define y where "y = 1 / x"
  from False assms have y: "1 < y" by (simp add: y_def)
  define c where "c = nat (\<lceil>y\<rceil> - 1)"
  from ceiling_nat_bounds [OF y] have c: "0 < c" "real c < y" "y \<le> real c + 1"
    unfolding c_def by blast+
  from bit_length_bounds [OF c(1)] have l: "2 ^ (bit_length c - 1) \<le> c"
    and u: "c < 2 ^ bit_length c" by simp_all
  have f: "floor_log2 x = - int (bit_length c)"
    using False by (simp add: floor_log2_def c_def y_def)
  from less_pow_real [OF u] c(3) have yu: "y \<le> 2 ^ bit_length c" by linarith
  from pow_le_real [OF l] c(2) have yl: "2 ^ (bit_length c - 1) < y" by linarith
  from assms have x: "x = 1 / y" by (simp add: y_def)
  have 1: "(2::real) powi floor_log2 x = 1 / 2 ^ bit_length c"
    unfolding f by (rule powi_two_neg)
  have 2: "(2::real) powi (floor_log2 x + 1) = 1 / 2 ^ (bit_length c - 1)"
    unfolding f by (rule powi_two_neg_succ [OF bit_length_pos [OF c(1)]])
  from y have "0 < y" by simp
  from inverse_pow_le [OF this yu] have a: "1 / 2 ^ bit_length c \<le> x" by (simp only: x)
  from inverse_pow_less [OF yl] have b: "x < 1 / 2 ^ (bit_length c - 1)" by (simp only: x)
  from a b show ?thesis unfolding 1 2 by blast
qed


lemma round_half_even_near: "\<bar>of_int (round_half_even x) - x\<bar> \<le> 1/2"
  by (simp add: round_half_even_def Let_def)

lemma round_half_even_of_int: "round_half_even (of_int m) = m"
  by (simp add: round_half_even_def)

lemma round_binary_finite:
  assumes "round_binary p emin emax x = Finite y" and "x \<noteq> 0"
  shows "y = of_int (round_half_even (x / 2 powi (max (floor_log2 \<bar>x\<bar>) emin - int p + 1)))
               * 2 powi (max (floor_log2 \<bar>x\<bar>) emin - int p + 1)
         \<and> \<bar>y\<bar> < 2 powi (emax + 1)"
  using assms by (simp add: round_binary_def Let_def split: if_splits)

lemma round_binary_near:
  assumes "round_binary p emin emax x = Finite y"
  shows "\<bar>y - x\<bar> \<le> 2 powi (max (floor_log2 \<bar>x\<bar>) emin - int p + 1) / 2"
proof (cases "x = 0")
  case True
  with assms have "y = 0" by (simp add: round_binary_def)
  with True show ?thesis by simp
next
  case False
  define u where "u = (2::real) powi (max (floor_log2 \<bar>x\<bar>) emin - int p + 1)"
  define m where "m = round_half_even (x / u)"
  have u0: "0 < u" by (simp add: u_def)
  from round_binary_finite [OF assms False] have y: "y = of_int m * u"
    by (simp add: u_def m_def)
  have "\<bar>of_int m - x / u\<bar> \<le> 1/2" unfolding m_def by (rule round_half_even_near)
  then have "\<bar>of_int m - x / u\<bar> * u \<le> 1/2 * u" using u0 by (simp only: mult_le_cancel_right_pos)
  moreover have "\<bar>of_int m - x / u\<bar> * u = \<bar>of_int m * u - x\<bar>"
  proof -
    have "\<bar>of_int m - x / u\<bar> * u = \<bar>(of_int m - x / u) * u\<bar>" using u0 by (simp add: abs_mult)
    also have "(of_int m - x / u) * u = of_int m * u - x" using u0 by (simp add: field_simps)
    finally show ?thesis .
  qed
  ultimately have "\<bar>of_int m * u - x\<bar> \<le> 1/2 * u" by (simp only:)
  then have "\<bar>y - x\<bar> \<le> u / 2" by (simp add: y)
  then show ?thesis unfolding u_def .
qed

lemma powi_two_pos: "0 < (2::real) powi a"
  by simp

lemma powi_two_add: "(2::real) powi (a + b) = 2 powi a * 2 powi b"
  by (simp add: power_int_add)

lemma powi_two_mono: "a \<le> b \<Longrightarrow> (2::real) powi a \<le> 2 powi b"
  by (rule power_int_increasing) simp_all

lemma powi_two_le_D: "(2::real) powi a \<le> 2 powi b \<Longrightarrow> a \<le> b"
proof (rule ccontr)
  assume l: "(2::real) powi a \<le> 2 powi b" and "\<not> a \<le> b"
  then have "b < a" by simp
  then have "(2::real) powi b < 2 powi a" by (rule power_int_strict_increasing) simp
  with l show False by simp
qed

lemma powi_two_nat: "0 \<le> a \<Longrightarrow> (2::real) powi a = of_int (2 ^ nat a)"
  by (simp add: power_int_def)


lemma round_binary_idem:
  assumes p: "0 < p" and r: "round_binary p emin emax x = Finite y"
  shows "round_binary p emin emax y = Finite y"
proof (cases "y = 0")
  case True
  then show ?thesis by (simp add: round_binary_def)
next
  case y0: False
  have x0: "x \<noteq> 0"
  proof
    assume "x = 0"
    with r have "y = 0" by (simp add: round_binary_def)
    with y0 show False by simp
  qed
  define e where "e = max (floor_log2 \<bar>x\<bar>) emin"
  define q where "q = e - int p + 1"
  define u where "u = (2::real) powi q"
  define m where "m = round_half_even (x / u)"
  have u0: "0 < u" by (simp add: u_def)
  from round_binary_finite [OF r x0] have y: "y = of_int m * u"
    and fin: "\<bar>y\<bar> < 2 powi (emax + 1)"
    unfolding e_def q_def u_def m_def by blast+
  have emin: "emin \<le> e" by (simp add: e_def)
  have pu: "2 ^ p * u = 2 powi (e + 1)"
  proof -
    have "(2::real) powi (int p + q) = 2 powi (int p) * 2 powi q" by (rule powi_two_add)
    moreover have "int p + q = e + 1" by (simp add: q_def)
    ultimately show ?thesis by (simp add: u_def)
  qed
  have xb: "\<bar>x\<bar> < 2 ^ p * u"
  proof -
    from x0 have "0 < \<bar>x\<bar>" by simp
    from floor_log2_bounds [OF this] have "\<bar>x\<bar> < 2 powi (floor_log2 \<bar>x\<bar> + 1)" by simp
    also have "\<dots> \<le> 2 powi (e + 1)" by (rule powi_two_mono) (simp add: e_def)
    finally show ?thesis by (simp only: pu)
  qed
  have mb: "\<bar>m\<bar> \<le> 2 ^ p"
  proof -
    have "\<bar>x / u\<bar> < 2 ^ p"
    proof -
      have "\<bar>x / u\<bar> = \<bar>x\<bar> / u" using u0 by simp
      also have "\<dots> < 2 ^ p" using xb u0 by (simp add: field_simps)
      finally show ?thesis .
    qed
    moreover have "\<bar>of_int m - x / u\<bar> \<le> 1/2" unfolding m_def by (rule round_half_even_near)
    ultimately have "\<bar>real_of_int m\<bar> < 2 ^ p + 1" by linarith
    then have "real_of_int \<bar>m\<bar> < real_of_int (2 ^ p + 1)" by simp
    then have "\<bar>m\<bar> < 2 ^ p + 1" by (simp only: of_int_less_iff)
    then show ?thesis by simp
  qed
  have ya: "\<bar>y\<bar> = of_int \<bar>m\<bar> * u" using u0 by (simp add: y abs_mult)
  have yb: "\<bar>y\<bar> \<le> 2 powi (e + 1)"
  proof -
    from mb have "real_of_int \<bar>m\<bar> \<le> real_of_int (2 ^ p)" by (simp only: of_int_le_iff)
    then have "real_of_int \<bar>m\<bar> \<le> 2 ^ p" by simp
    then have "of_int \<bar>m\<bar> * u \<le> 2 ^ p * u" using u0 by (simp only: mult_le_cancel_right_pos)
    then show ?thesis by (simp only: ya pu)
  qed
  define f where "f = floor_log2 \<bar>y\<bar>"
  define e' where "e' = max f emin"
  define q' where "q' = e' - int p + 1"
  define u' where "u' = (2::real) powi q'"
  have u'0: "0 < u'" by (simp add: u'_def)
  from y0 have "0 < \<bar>y\<bar>" by simp
  from floor_log2_bounds [OF this] have fl: "2 powi f \<le> \<bar>y\<bar>" and fu: "\<bar>y\<bar> < 2 powi (f + 1)"
    by (simp_all add: f_def)
  from fl yb have "(2::real) powi f \<le> 2 powi (e + 1)" by linarith
  then have fe: "f \<le> e + 1" by (rule powi_two_le_D)
  have "\<exists>k. y = of_int k * u'"
  proof (cases "f \<le> e")
    case True
    with emin have "e' \<le> e" by (simp add: e'_def)
    then have d: "0 \<le> q - q'" by (simp add: q_def q'_def)
    have "u = 2 powi (q - q') * u'"
    proof -
      have "(2::real) powi ((q - q') + q') = 2 powi (q - q') * 2 powi q'" by (rule powi_two_add)
      then show ?thesis by (simp add: u_def u'_def)
    qed
    also have "(2::real) powi (q - q') = of_int (2 ^ nat (q - q'))" by (rule powi_two_nat [OF d])
    finally have "y = of_int (m * 2 ^ nat (q - q')) * u'" by (simp add: y)
    then show ?thesis by blast
  next
    case False
    with fe have f: "f = e + 1" by simp
    with emin have e': "e' = e + 1" by (simp add: e'_def)
    from fl yb have "\<bar>y\<bar> = 2 powi (e + 1)" by (simp add: f)
    then have "of_int \<bar>m\<bar> * u = 2 ^ p * u" by (simp only: ya pu)
    then have "real_of_int \<bar>m\<bar> = 2 ^ p" using u0 by simp
    then have "real_of_int \<bar>m\<bar> = real_of_int (2 ^ p)" by simp
    then have am: "\<bar>m\<bar> = 2 ^ p" by (simp only: of_int_eq_iff)
    from p obtain p' where p': "p = Suc p'" by (cases p) simp_all
    from am have "m = 2 ^ p \<or> m = - (2 ^ p)" by linarith
    then obtain k where k: "m = 2 * k" by (auto simp: p')
    have "q' = q + 1" by (simp add: q_def q'_def e')
    then have "u' = 2 * u" by (simp add: u_def u'_def power_int_add)
    then have "y = of_int k * u'" by (simp add: y k)
    then show ?thesis by blast
  qed
  then obtain k where k: "y = of_int k * u'" by blast
  have "y / u' = of_int k" using u'0 by (simp add: k)
  then have "round_half_even (y / u') = k" by (simp only: round_half_even_of_int)
  then have "of_int (round_half_even (y / u')) * u' = y" by (simp add: k)
  then have "of_int (round_half_even (y / 2 powi (max (floor_log2 \<bar>y\<bar>) emin - int p + 1)))
               * 2 powi (max (floor_log2 \<bar>y\<bar>) emin - int p + 1) = y"
    by (simp only: u'_def q'_def e'_def f_def)
  with y0 fin show ?thesis by (simp add: round_binary_def Let_def)
qed

lemmas float_eval =
  float64_def float32_def round_binary_def floor_log2_def round_half_even_def Let_def
  power_int_def power_one_over

lemma float64_0 [simp]: "float64 0 = Finite 0"
  by (simp add: float64_def round_binary_def)

lemma float64_1 [simp]: "float64 1 = Finite 1"
  by (simp add: float_eval)

lemma float64_idem: "float64 x = Finite y \<Longrightarrow> float64 y = Finite y"
  unfolding float64_def by (rule round_binary_idem) simp_all

lemma int_truediv_finite:
  "b \<noteq> 0 \<Longrightarrow> float64 (of_int a / of_int b) = Finite t \<Longrightarrow> int_truediv a b = Inr (Finite t)"
  by (simp add: int_truediv_def)

lemma mapping_action_rounded:
  assumes "action_range s = [action_min, action_max]" and "num_of_action s \<noteq> 1"
    and "float64 (of_int i / of_int (num_of_action s - 1)) = Finite t"
    and "float64 (action_max - action_min) = Finite d"
    and "float64 (t * d) = Finite p"
  shows "mapping_action s i = Inr (to_float32 (float64 (action_min + p)))"
proof -
  from assms(2) have "num_of_action s - 1 \<noteq> 0" by simp
  from int_truediv_finite [OF this assms(3)]
  have "int_truediv i (num_of_action s - 1) = Inr (Finite t)" .
  moreover have "fl_sub (Finite action_max) (Finite action_min) = Finite d"
    using assms(4) by (simp add: fl_sub_def)
  ultimately show ?thesis using assms(1,2,5) by (simp add: mapping_action_def)
qed

text \<open>
  C8 (as amended). With \<^verbatim>\<open>action_range = [action_min, action_max]\<close>, two floats, the
  result is a float32 value. When \<^verbatim>\<open>num_of_action > 1\<close>: every index \<open>i\<close> maps to the
  interpolation \<open>action_min + (i / (num_of_action - 1)) * (action_max - action_min)\<close> with
  each of its four operations rounded to a float, converted to float32. Whenever the
  difference \<open>action_max - action_min\<close> does not overflow, and with \<open>d\<close> its rounded value:
  index 0 maps to float32 of \<open>action_min\<close>, and index \<^verbatim>\<open>num_of_action - 1\<close> maps to float32
  of the rounded sum \<open>action_min + d\<close>, which is float32 of \<open>action_max\<close> whenever the
  difference is itself a float, that is, whenever the subtraction is exact. When
  \<^verbatim>\<open>num_of_action == 1\<close>, every index maps to float32 of \<open>action_min\<close>.
\<close>

theorem mapping_action_endpoints:
  assumes "action_range s = [action_min, action_max]"
    and "is_float64 action_min" and "is_float64 action_max"
  shows "(1 < num_of_action s \<longrightarrow>
            (\<forall>i t d p. float64 (of_int i / of_int (num_of_action s - 1)) = Finite t
                 \<and> float64 (action_max - action_min) = Finite d
                 \<and> float64 (t * d) = Finite p
               \<longrightarrow> mapping_action s i = Inr (to_float32 (float64 (action_min + p))))
          \<and> (\<forall>d. float64 (action_max - action_min) = Finite d
               \<longrightarrow> mapping_action s 0 = Inr (float32 action_min))
          \<and> (\<forall>d. float64 (action_max - action_min) = Finite d
               \<longrightarrow> mapping_action s (num_of_action s - 1)
                     = Inr (to_float32 (float64 (action_min + d))))
          \<and> (is_float64 (action_max - action_min)
               \<longrightarrow> mapping_action s (num_of_action s - 1) = Inr (float32 action_max)))
       \<and> (num_of_action s = 1 \<longrightarrow> (\<forall>i. mapping_action s i = Inr (float32 action_min)))"
proof (intro conjI impI allI)
  fix i t d p
  assume "1 < num_of_action s"
    and "float64 (of_int i / of_int (num_of_action s - 1)) = Finite t
         \<and> float64 (action_max - action_min) = Finite d \<and> float64 (t * d) = Finite p"
  then show "mapping_action s i = Inr (to_float32 (float64 (action_min + p)))"
    using mapping_action_rounded [OF assms(1), of i t d p] by simp
next
  fix d
  assume n: "1 < num_of_action s" and d: "float64 (action_max - action_min) = Finite d"
  from n have n1: "num_of_action s \<noteq> 1" by simp
  have "mapping_action s 0 = Inr (to_float32 (float64 (action_min + 0)))"
    by (rule mapping_action_rounded [OF assms(1) n1, of 0 0 d 0]) (simp_all add: d)
  with assms(2) show "mapping_action s 0 = Inr (float32 action_min)"
    by (simp add: is_float64_def to_float32_def)
next
  fix d
  assume n: "1 < num_of_action s" and d: "float64 (action_max - action_min) = Finite d"
  from n have n1: "num_of_action s \<noteq> 1" by simp
  from n have q: "(of_int (num_of_action s - 1) :: real) / of_int (num_of_action s - 1) = 1"
    by simp
  have t: "float64 (of_int (num_of_action s - 1) / of_int (num_of_action s - 1)) = Finite 1"
    by (simp only: q float64_1)
  have p: "float64 (1 * d) = Finite d"
    using float64_idem [OF d] by (simp only: mult_1)
  show "mapping_action s (num_of_action s - 1) = Inr (to_float32 (float64 (action_min + d)))"
    by (rule mapping_action_rounded [OF assms(1) n1 t d p])
next
  assume n: "1 < num_of_action s" and e: "is_float64 (action_max - action_min)"
  from n have n1: "num_of_action s \<noteq> 1" by simp
  from n have q: "(of_int (num_of_action s - 1) :: real) / of_int (num_of_action s - 1) = 1"
    by simp
  from e have d: "float64 (action_max - action_min) = Finite (action_max - action_min)"
    by (simp add: is_float64_def)
  have t: "float64 (of_int (num_of_action s - 1) / of_int (num_of_action s - 1)) = Finite 1"
    by (simp only: q float64_1)
  have p: "float64 (1 * (action_max - action_min)) = Finite (action_max - action_min)"
    by (simp only: mult_1 d)
  have "mapping_action s (num_of_action s - 1)
        = Inr (to_float32 (float64 (action_min + (action_max - action_min))))"
    by (rule mapping_action_rounded [OF assms(1) n1 t d p])
  with assms(3) show "mapping_action s (num_of_action s - 1) = Inr (float32 action_max)"
    by (simp add: is_float64_def to_float32_def)
next
  fix i
  assume "num_of_action s = 1"
  with assms(1) show "mapping_action s i = Inr (float32 action_min)"
    by (simp add: mapping_action_def to_float32_def)
qed

theorem mapping_action_endpoints_witness:
  "mapping_action c8_agent 0 = Inr (Finite (- 20)) \<and> mapping_action c8_agent 10 = Inr (Finite 20)
   \<and> mapping_action c8_agent 5 = Inr (Finite 0) \<and> mapping_action c8_agent 1 = Inr (Finite (- 16))
   \<and> mapping_action (c8_agent\<lparr>num_of_action := 1\<rparr>) 7 = Inr (Finite (- 20))"
proof -
  have h: "action_range c8_agent = [- 20, 20]" by (simp add: c8_agent_def init_def)
  have n: "num_of_action c8_agent = 11" by (simp add: c8_agent_def init_def)
  have h1: "action_range (c8_agent\<lparr>num_of_action := 1\<rparr>) = [- 20, 20]"
    by (simp add: c8_agent_def init_def)
  have lo: "is_float64 (- 20)" and hi: "is_float64 20" and df: "is_float64 (20 - (- 20))"
    by (simp_all add: is_float64_def float_eval)
  have lo32: "float32 (- 20) = Finite (- 20)" and hi32: "float32 20 = Finite 20"
    and z32: "float32 0 = Finite 0" and m32: "float32 (- 16) = Finite (- 16)"
    by (simp_all add: float_eval)
  have d: "float64 (20 - (- 20)) = Finite 40" by (simp add: float_eval)
  have t5: "float64 (of_int 5 / of_int (11 - 1)) = Finite (1/2)" by (simp add: float_eval)
  have p5: "float64 (1/2 * 40) = Finite 20" by (simp add: float_eval)
  have s5: "float64 (- 20 + 20) = Finite 0" by simp
  have t1: "float64 (of_int 1 / of_int (11 - 1)) = Finite (3602879701896397 / 36028797018963968)"
    by (simp add: float_eval)
  have p1: "float64 (3602879701896397 / 36028797018963968 * 40) = Finite 4"
    by (simp add: float_eval)
  have s1: "float64 (- 20 + 4) = Finite (- 16)" by (simp add: float_eval)
  have n1: "1 < num_of_action c8_agent" by (simp add: n)
  from mapping_action_endpoints [OF h lo hi] n1
  have g: "\<forall>i t d p. float64 (of_int i / of_int (num_of_action c8_agent - 1)) = Finite t
                 \<and> float64 (20 - (- 20)) = Finite d \<and> float64 (t * d) = Finite p
               \<longrightarrow> mapping_action c8_agent i = Inr (to_float32 (float64 (- 20 + p)))"
    and z: "\<forall>d. float64 (20 - (- 20)) = Finite d
               \<longrightarrow> mapping_action c8_agent 0 = Inr (float32 (- 20))"
    and r: "\<forall>d. float64 (20 - (- 20)) = Finite d
               \<longrightarrow> mapping_action c8_agent (num_of_action c8_agent - 1)
                     = Inr (to_float32 (float64 (- 20 + d)))"
    and l: "is_float64 (20 - (- 20))
               \<longrightarrow> mapping_action c8_agent (num_of_action c8_agent - 1) = Inr (float32 20)"
    by blast+
  from r d have "mapping_action c8_agent 10 = Inr (to_float32 (float64 (- 20 + 40)))"
    by (simp only: n) simp
  then have r10: "mapping_action c8_agent 10 = Inr (Finite 20)"
    using hi hi32 by (simp add: is_float64_def to_float32_def)
  from z d have "mapping_action c8_agent 0 = Inr (Finite (- 20))"
    by (simp only: lo32)
  moreover from l df have "mapping_action c8_agent 10 = Inr (Finite 20)"
    by (simp add: n hi32)
  moreover have "mapping_action c8_agent 5 = Inr (to_float32 (float64 (- 20 + 20)))"
    using g [rule_format, of 5 "1/2" 40 20] t5 d p5 by (simp only: n)
  then have "mapping_action c8_agent 5 = Inr (Finite 0)"
    by (simp add: to_float32_def z32)
  moreover have "mapping_action c8_agent 1 = Inr (to_float32 (float64 (- 20 + 4)))"
    using g [rule_format, of 1 "3602879701896397 / 36028797018963968" 40 4] t1 d p1
    by (simp only: n)
  then have "mapping_action c8_agent 1 = Inr (Finite (- 16))"
    by (simp only: s1 to_float32_def pyfloat.case m32)
  moreover from mapping_action_endpoints [OF h1 lo hi]
  have "mapping_action (c8_agent\<lparr>num_of_action := 1\<rparr>) 7 = Inr (Finite (- 20))"
    by (simp add: lo32)
  ultimately show ?thesis by simp
qed

text \<open>
  The claim as stated maps the last index to \<open>action_max\<close> for every configuration. With
  the range \<^verbatim>\<open>[-1e9, 0.1]\<close> and 11 actions, the difference \<^verbatim>\<open>0.1 - (-1e9)\<close> rounds to
  \<open>1000000000 + 838861 / 2^23\<close>, and index 10 maps to \<open>838861 / 2^23\<close>, which is
  0.10000002384185791, while float32 of 0.1 is \<open>13421773 / 2^27\<close>, which is
  0.10000000149011612.
\<close>

theorem mapping_action_last_index_counterexample:
  "action_range c8_wide = [- 1000000000, 3602879701896397 / 36028797018963968]
   \<and> num_of_action c8_wide = 11
   \<and> float64 (1/10) = Finite (3602879701896397 / 36028797018963968)
   \<and> is_float64 (- 1000000000) \<and> is_float64 (3602879701896397 / 36028797018963968)
   \<and> mapping_action c8_wide 10 = Inr (Finite (838861 / 8388608))
   \<and> float32 (3602879701896397 / 36028797018963968) = Finite (13421773 / 134217728)"
proof -
  have t: "float64 (of_int 10 / of_int (11 - 1)) = Finite 1" by simp
  have d: "float64 (3602879701896397 / 36028797018963968 - (- 1000000000))
           = Finite (1000000000 + 838861 / 8388608)"
    by (simp add: float_eval)
  have p: "float64 (1 * (1000000000 + 838861 / 8388608)) = Finite (1000000000 + 838861 / 8388608)"
    by (simp add: float_eval)
  have a: "float64 (- 1000000000 + (1000000000 + 838861 / 8388608)) = Finite (838861 / 8388608)"
    by (simp add: float_eval)
  have c: "float32 (838861 / 8388608) = Finite (838861 / 8388608)"
    by (simp add: float_eval)
  have r: "action_range c8_wide = [- 1000000000, 3602879701896397 / 36028797018963968]"
    and n: "num_of_action c8_wide = 11"
    by (simp_all add: c8_wide_def init_def)
  have n1: "num_of_action c8_wide \<noteq> 1" by (simp add: n)
  have "mapping_action c8_wide 10
        = Inr (to_float32 (float64 (- 1000000000 + (1000000000 + 838861 / 8388608))))"
    using mapping_action_rounded [OF r n1, of 10 1 "1000000000 + 838861 / 8388608"
        "1000000000 + 838861 / 8388608"] t d p
    by (simp only: n)
  then have "mapping_action c8_wide 10 = Inr (Finite (838861 / 8388608))"
    by (simp only: a to_float32_def pyfloat.case c)
  moreover have "float64 (1/10) = Finite (3602879701896397 / 36028797018963968)"
    by (simp add: float_eval)
  moreover have "is_float64 (- 1000000000)" "is_float64 (3602879701896397 / 36028797018963968)"
    by (simp_all add: is_float64_def float_eval)
  moreover have "float32 (3602879701896397 / 36028797018963968) = Finite (13421773 / 134217728)"
    by (simp add: float_eval)
  ultimately show ?thesis using r n by simp
qed

subsection \<open>State discretisation: bucket bounds\<close>

lemma discretize_state_dims:
  assumes "discretize_state_weight s = b0 # b1 # b2 # b3 # bs"
    and "policy = x0 # x1 # x2 # x3 # xs"
    and "bucket_of 4 b0 x0 = Inr k0"
    and "bucket_of (30 * (pi / 180)) b1 x1 = Inr k1"
    and "bucket_of 15 b2 x2 = Inr k2"
    and "bucket_of 15 b3 x3 = Inr k3"
  shows "discretize_state s policy = Inr [PyInt k0, PyInt k1, PyInt k2, PyInt k3]"
  using assms
  by (auto simp: discretize_state_def bucket_of_def Let_def ebind_eq_Inr)

lemma bucketize_le: "bucketize v es \<le> length es"
  by (induction es) simp_all

lemma bucketize_below:
  "\<forall>e \<in> set xs. e < v \<Longrightarrow> bucketize v (xs @ ys) = length xs + bucketize v ys"
  by (induction xs) simp_all

lemma linspace_length: "linspace lo hi B = Inr es \<Longrightarrow> length es = nat B"
  by (auto simp: linspace_def split: if_splits)

lemma linspace_total: "0 \<le> B \<Longrightarrow> \<exists>es. linspace lo hi B = Inr es"
  by (simp add: linspace_def)

lemma linspace_first:
  assumes "linspace lo hi B = Inr es"
  shows "bucketize lo es = 0"
proof (cases "B = 1")
  case True
  with assms show ?thesis by (auto simp: linspace_def)
next
  case False
  with assms have es: "es = map (\<lambda>i. lo + real i * ((hi - lo) / of_int (B - 1))) [0 ..< nat B]"
    by (auto simp: linspace_def split: if_splits)
  show ?thesis
  proof (cases "nat B")
    case 0
    with es show ?thesis by simp
  next
    case (Suc m)
    then have "[0 ..< nat B] = 0 # [Suc 0 ..< nat B]"
      by (metis upt_conv_Cons zero_less_Suc)
    then show ?thesis unfolding es by simp
  qed
qed

lemma linspace_last:
  assumes "linspace lo hi B = Inr es" and "2 \<le> B" and "lo < hi"
  shows "bucketize hi es = nat B - 1"
proof -
  define d where "d = (hi - lo) / of_int (B - 1)"
  define f where "f = (\<lambda>i. lo + real i * d)"
  define m where "m = nat B - 1"
  have B: "nat B = Suc m" and m: "(of_int (B - 1) :: real) = real m" and mpos: "0 < m"
    using assms(2) by (auto simp: m_def)
  from assms(1,2) have es: "es = map f [0 ..< nat B]"
    by (auto simp: linspace_def f_def d_def split: if_splits)
  then have es': "es = map f [0 ..< m] @ [f m]" by (simp add: B)
  have d: "d = (hi - lo) / real m" unfolding d_def m ..
  have dpos: "0 < d" unfolding d using assms(3) mpos by simp
  have md: "real m * d = hi - lo" unfolding d using mpos by simp
  have fm: "f m = hi" unfolding f_def md by simp
  have below: "\<forall>e \<in> set (map f [0 ..< m]). e < hi"
  proof
    fix e assume "e \<in> set (map f [0 ..< m])"
    then obtain i where i: "i < m" and e: "e = f i" by auto
    have "real i * d < real m * d"
      using i dpos by (intro mult_strict_right_mono) simp_all
    then have "real i * d < hi - lo" unfolding md .
    then show "e < hi" unfolding e f_def by simp
  qed
  have "bucketize hi es = length (map f [0 ..< m]) + bucketize hi [f m]"
    unfolding es' by (rule bucketize_below [OF below])
  also have "\<dots> = m" unfolding fm by simp
  finally show ?thesis unfolding m_def .
qed

lemma bucket_of_props:
  assumes "0 \<le> B" and "0 < bound"
  shows "\<exists>k. bucket_of bound B x = Inr k \<and> 0 \<le> k \<and> k \<le> B
           \<and> (x \<le> - bound \<longrightarrow> k = 0)
           \<and> (bound \<le> x \<longrightarrow> k = (if B \<le> 1 then B else B - 1))"
proof -
  from assms(1) obtain es where es: "linspace (- bound) bound B = Inr es"
    using linspace_total by blast
  let ?k = "int (bucketize (torch_clip x (- bound) bound) es)"
  have k: "bucket_of bound B x = Inr ?k" by (simp add: bucket_of_def es)
  have len: "length es = nat B" using es by (rule linspace_length)
  have r: "0 \<le> ?k \<and> ?k \<le> B"
    using bucketize_le [of "torch_clip x (- bound) bound" es] assms(1) len by simp
  have lo: "?k = 0" if "x \<le> - bound"
  proof -
    have "torch_clip x (- bound) bound = - bound"
      using that assms(2) by (simp add: torch_clip_def)
    then show ?thesis using linspace_first [OF es] by simp
  qed
  have hi: "?k = (if B \<le> 1 then B else B - 1)" if "bound \<le> x"
  proof -
    have c: "torch_clip x (- bound) bound = bound"
      using that assms(2) by (simp add: torch_clip_def)
    consider "B = 0" | "B = 1" | "2 \<le> B" using assms(1) by linarith
    then show ?thesis
    proof cases
      case 1
      with len show ?thesis by simp
    next
      case 2
      with es have "es = [- bound]" by (simp add: linspace_def)
      with 2 c assms(2) show ?thesis by simp
    next
      case 3
      have "- bound < bound" using assms(2) by simp
      with es 3 have "bucketize bound es = nat B - 1"
        by (rule linspace_last)
      with 3 c show ?thesis by simp
    qed
  qed
  from k r lo hi show ?thesis by blast
qed

text \<open>
  C2 (as amended). For every dimension with bin count \<open>B \<ge> 0\<close>, \<^verbatim>\<open>discretize_state\<close>
  maps a raw value at or below the lower bound \<open>- bound\<close> to bucket 0, and a raw value at
  or above the upper bound \<open>+ bound\<close> to bucket \<open>B - 1\<close> when \<open>B \<ge> 2\<close> (to \<open>B\<close> itself
  only when \<open>B\<close> is 0 or 1); each component of the returned key lies in \<open>[0, B]\<close>.
\<close>

theorem discretize_state_buckets:
  assumes "discretize_state_weight s = [b0, b1, b2, b3]"
    and "0 \<le> b0" and "0 \<le> b1" and "0 \<le> b2" and "0 \<le> b3"
  shows "\<exists>k0 k1 k2 k3.
           discretize_state s [x0, x1, x2, x3] = Inr [PyInt k0, PyInt k1, PyInt k2, PyInt k3]
         \<and> bucket_range 4 b0 x0 k0 \<and> bucket_range (pi / 6) b1 x1 k1
         \<and> bucket_range 15 b2 x2 k2 \<and> bucket_range 15 b3 x3 k3"
proof -
  have p: "30 * (pi / 180) = pi / 6" by simp
  obtain k0 where k0: "bucket_of 4 b0 x0 = Inr k0" and r0: "bucket_range 4 b0 x0 k0"
    using bucket_of_props [of b0 4 x0] assms(2) unfolding bucket_range_def by auto
  obtain k1 where k1: "bucket_of (30 * (pi / 180)) b1 x1 = Inr k1"
    and r1: "bucket_range (pi / 6) b1 x1 k1"
    using bucket_of_props [of b1 "pi / 6" x1] assms(3) unfolding bucket_range_def p by auto
  obtain k2 where k2: "bucket_of 15 b2 x2 = Inr k2" and r2: "bucket_range 15 b2 x2 k2"
    using bucket_of_props [of b2 15 x2] assms(4) unfolding bucket_range_def by auto
  obtain k3 where k3: "bucket_of 15 b3 x3 = Inr k3" and r3: "bucket_range 15 b3 x3 k3"
    using bucket_of_props [of b3 15 x3] assms(5) unfolding bucket_range_def by auto
  have "discretize_state s [x0, x1, x2, x3] = Inr [PyInt k0, PyInt k1, PyInt k2, PyInt k3]"
    using assms(1) refl k0 k1 k2 k3 by (rule discretize_state_dims)
  with r0 r1 r2 r3 show ?thesis by blast
qed

theorem discretize_state_buckets_witness:
  "\<exists>k1. discretize_state c8_agent [100, 0, -20, 15] = Inr [PyInt 4, PyInt k1, PyInt 0, PyInt 4]
        \<and> 0 \<le> k1 \<and> k1 \<le> 5"
proof -
  have w: "discretize_state_weight c8_agent = [5, 5, 5, 5]"
    by (simp add: c8_agent_def init_def)
  have b: "(0::int) \<le> 5" by simp
  from discretize_state_buckets [OF w b b b b, of 100 0 "-20" 15]
  show ?thesis unfolding bucket_range_def by auto
qed

text \<open>
  The claim as stated puts a reading at or above the upper bound into bucket \<open>B\<close>. With
  five bins per dimension, the cart position 100 (bound 4) falls into bucket 4.
\<close>

theorem discretize_state_upper_counterexample:
  "discretize_state_weight c8_agent = [5, 5, 5, 5]
   \<and> discretize_state c8_agent [100, 0, 0, 0] = Inr [PyInt 4, PyInt 2, PyInt 2, PyInt 2]"
  by (simp add: c8_agent_def init_def discretize_state_def linspace_def torch_clip_def
      Let_def upt_conv_Cons)

subsection \<open>Epsilon decay\<close>

lemma epsilon_decay_epsilon:
  "epsilon (decay_epsilon t) = max (epsilon t * epsilon_decay t) (final_epsilon t)"
  by (simp add: decay_epsilon_def)

lemma decay_epsilon_fields:
  "epsilon_decay (decay_epsilon t) = epsilon_decay t"
  "final_epsilon (decay_epsilon t) = final_epsilon t"
  by (simp_all add: decay_epsilon_def)

lemma decay_epsilon_pow_fields:
  "epsilon_decay ((decay_epsilon ^^ n) s) = epsilon_decay s
   \<and> final_epsilon ((decay_epsilon ^^ n) s) = final_epsilon s"
  by (induction n) (simp_all add: decay_epsilon_fields)

lemma decay_epsilon_pow_inv:
  assumes "0 < epsilon_decay s" and "0 \<le> final_epsilon s" and "final_epsilon s \<le> epsilon s"
  shows "final_epsilon s \<le> epsilon ((decay_epsilon ^^ n) s)"
proof (induction n)
  case 0
  from assms(3) show ?case by simp
next
  case (Suc n)
  show ?case by (simp add: epsilon_decay_epsilon decay_epsilon_pow_fields)
qed

text \<open>
  C7 (as amended). Each \<^verbatim>\<open>decay_epsilon\<close> call sets epsilon to
  \<open>max (epsilon * epsilon_decay) final_epsilon\<close>. For every configuration with
  \<open>epsilon_decay\<close> in \<open>(0, 1]\<close> and \<open>0 \<le> final_epsilon \<le> epsilon\<close> at the start, across any
  number of calls epsilon is non-increasing and never below \<open>final_epsilon\<close>, and once
  it equals \<open>final_epsilon\<close> a further call leaves the agent unchanged; one call from
  epsilon 1 with decay 0.9 and \<open>final_epsilon \<le> 0.9\<close> yields 0.9.
\<close>

theorem decay_epsilon_schedule:
  assumes "0 < epsilon_decay s" and "epsilon_decay s \<le> 1"
    and "0 \<le> final_epsilon s" and "final_epsilon s \<le> epsilon s"
  shows "epsilon (decay_epsilon s) = max (epsilon s * epsilon_decay s) (final_epsilon s)
       \<and> (\<forall>n. epsilon ((decay_epsilon ^^ Suc n) s) \<le> epsilon ((decay_epsilon ^^ n) s))
       \<and> (\<forall>n. final_epsilon s \<le> epsilon ((decay_epsilon ^^ n) s))
       \<and> (\<forall>n. epsilon ((decay_epsilon ^^ n) s) = final_epsilon s
              \<longrightarrow> (decay_epsilon ^^ Suc n) s = (decay_epsilon ^^ n) s)
       \<and> (epsilon s = 1 \<and> epsilon_decay s = 9/10 \<and> final_epsilon s \<le> 9/10
              \<longrightarrow> epsilon (decay_epsilon s) = 9/10)"
proof -
  have inv: "final_epsilon s \<le> epsilon ((decay_epsilon ^^ n) s)" for n
    using assms(1,3,4) by (rule decay_epsilon_pow_inv)
  have mono: "epsilon ((decay_epsilon ^^ Suc n) s) \<le> epsilon ((decay_epsilon ^^ n) s)" for n
  proof -
    let ?e = "epsilon ((decay_epsilon ^^ n) s)"
    have "0 \<le> ?e" using inv [of n] assms(3) by linarith
    then have "?e * epsilon_decay s \<le> ?e * 1"
      using assms(2) by (intro mult_left_mono) simp_all
    then show ?thesis
      using inv [of n] by (simp add: epsilon_decay_epsilon decay_epsilon_pow_fields)
  qed
  have idem: "(decay_epsilon ^^ Suc n) s = (decay_epsilon ^^ n) s"
    if "epsilon ((decay_epsilon ^^ n) s) = final_epsilon s" for n
  proof -
    have "final_epsilon s * epsilon_decay s \<le> final_epsilon s * 1"
      using assms(2,3) by (intro mult_left_mono) simp_all
    then have "max (final_epsilon s * epsilon_decay s) (final_epsilon s) = final_epsilon s"
      by simp
    then have "decay_epsilon ((decay_epsilon ^^ n) s) = (decay_epsilon ^^ n) s"
      using that by (simp add: decay_epsilon_def decay_epsilon_pow_fields)
    then show ?thesis by simp
  qed
  have one: "epsilon (decay_epsilon s) = 9/10"
    if "epsilon s = 1 \<and> epsilon_decay s = 9/10 \<and> final_epsilon s \<le> 9/10"
    using that by (simp add: decay_epsilon_def)
  show ?thesis
    using mono inv idem one epsilon_decay_epsilon [of s] by blast
qed

theorem decay_epsilon_schedule_witness:
  "epsilon (decay_epsilon c7_agent) = 9/10
   \<and> epsilon ((decay_epsilon ^^ Suc 3) c7_agent) \<le> epsilon ((decay_epsilon ^^ 3) c7_agent)
   \<and> 1/100 \<le> epsilon ((decay_epsilon ^^ 3) c7_agent)"
proof -
  have h1: "0 < epsilon_decay c7_agent" and h2: "epsilon_decay c7_agent \<le> 1"
    and h3: "0 \<le> final_epsilon c7_agent" and h4: "final_epsilon c7_agent \<le> epsilon c7_agent"
    by (simp_all add: c7_agent_def init_def)
  have v: "epsilon c7_agent = 1 \<and> epsilon_decay c7_agent = 9/10 \<and> final_epsilon c7_agent \<le> 9/10"
    and f: "final_epsilon c7_agent = 1/100"
    by (simp_all add: c7_agent_def init_def)
  note sched = decay_epsilon_schedule [OF h1 h2 h3 h4]
  from sched v have "epsilon (decay_epsilon c7_agent) = 9/10" by blast
  moreover from sched
  have "epsilon ((decay_epsilon ^^ Suc 3) c7_agent) \<le> epsilon ((decay_epsilon ^^ 3) c7_agent)"
    by blast
  moreover from sched f have "1/100 \<le> epsilon ((decay_epsilon ^^ 3) c7_agent)"
    by metis
  ultimately show ?thesis by blast
qed

text \<open>
  The claim as stated has no condition on the starting epsilon. With epsilon 0.1, decay
  0.9 and floor 0.5, one call raises epsilon from 0.1 to 0.5.
\<close>

theorem decay_epsilon_increase_counterexample:
  "0 < epsilon_decay (c7_agent\<lparr>epsilon := 1/10, final_epsilon := 1/2\<rparr>)
   \<and> epsilon_decay (c7_agent\<lparr>epsilon := 1/10, final_epsilon := 1/2\<rparr>) \<le> 1
   \<and> epsilon (c7_agent\<lparr>epsilon := 1/10, final_epsilon := 1/2\<rparr>) = 1/10
   \<and> epsilon (decay_epsilon (c7_agent\<lparr>epsilon := 1/10, final_epsilon := 1/2\<rparr>)) = 1/2
   \<and> epsilon (c7_agent\<lparr>epsilon := 1/10, final_epsilon := 1/2\<rparr>)
       < epsilon (decay_epsilon (c7_agent\<lparr>epsilon := 1/10, final_epsilon := 1/2\<rparr>))"
  by (simp add: c7_agent_def init_def decay_epsilon_def)

subsection \<open>Double Q-Learning: the update rule and the toggle\<close>

lemma best_next_max_or_zero:
  "\<forall>v. tbl_lookup t k = Some v \<longrightarrow> elems v \<noteq> [] \<Longrightarrow> best_next t k = Inr (max_or_zero t k)"
  by (auto simp: best_next_def max_or_zero_def np_max_Max split: option.splits)

text \<open>
  C5. For every transition whose two observations discretise to \<open>k\<close> and \<open>k'\<close>, whose
  action indexes the row of \<open>k\<close> in the table selected by the toggle (current value
  \<open>old\<close>), and for which the other table's row for \<open>k'\<close>, if present, is not empty: the
  update returns, and when the toggle selects \<open>Qa\<close> it sets \<open>Qa[k][action]\<close> to
  \<open>old + lr * (reward + \<gamma> * max(Qb[k']) - old)\<close>, the maximum taken as 0 when \<open>k'\<close> has no
  entry in \<open>Qb\<close>; symmetrically with \<open>Qa\<close> and \<open>Qb\<close> exchanged when the toggle selects \<open>Qb\<close>.
\<close>

theorem double_q_update_rule:
  assumes "discretize_state s obs = Inr k" and "discretize_state s next_obs = Inr k'"
    and "tbl_read (num_of_action s) (if check_update s then qa_values s else qb_values s) k action
           = Inr old"
    and "\<forall>v. tbl_lookup (if check_update s then qb_values s else qa_values s) k' = Some v
           \<longrightarrow> elems v \<noteq> []"
  shows "\<exists>s'. Double_Q_Learning_update s obs action reward next_obs = Inr s'
         \<and> (if check_update s
            then tbl_read (num_of_action s) (qa_values s') k action
                   = Inr (old + lr s * (reward + discount_factor s * max_or_zero (qb_values s) k' - old))
            else tbl_read (num_of_action s) (qb_values s') k action
                   = Inr (old + lr s * (reward + discount_factor s * max_or_zero (qa_values s) k' - old)))"
proof (cases "check_update s")
  case True
  with assms(4) have b: "best_next (qb_values s) k' = Inr (max_or_zero (qb_values s) k')"
    by (intro best_next_max_or_zero) simp
  from assms(3) True have "tbl_read (num_of_action s) (qa_values s) k action = Inr old" by simp
  from td_assign_cell [OF this]
  obtain t' where "td_assign (num_of_action s) (qa_values s) k action (lr s)
        (reward + discount_factor s * max_or_zero (qb_values s) k') = Inr t'"
    and "tbl_read (num_of_action s) t' k action
        = Inr (old + lr s * (reward + discount_factor s * max_or_zero (qb_values s) k' - old))"
    by blast
  with True assms(1,2) b show ?thesis
    by (simp add: Double_Q_Learning_update_def)
next
  case False
  with assms(4) have b: "best_next (qa_values s) k' = Inr (max_or_zero (qa_values s) k')"
    by (intro best_next_max_or_zero) simp
  from assms(3) False have "tbl_read (num_of_action s) (qb_values s) k action = Inr old" by simp
  from td_assign_cell [OF this]
  obtain t' where "td_assign (num_of_action s) (qb_values s) k action (lr s)
        (reward + discount_factor s * max_or_zero (qa_values s) k') = Inr t'"
    and "tbl_read (num_of_action s) t' k action
        = Inr (old + lr s * (reward + discount_factor s * max_or_zero (qa_values s) k' - old))"
    by blast
  with False assms(1,2) b show ?thesis
    by (simp add: Double_Q_Learning_update_def)
qed

lemma c5_key: "discretize_state c5_agent [0, 0, 0, 0] = Inr [PyInt 2, PyInt 2, PyInt 2, PyInt 2]"
  by (simp add: c5_agent_def init_def discretize_state_def linspace_def torch_clip_def
      Let_def upt_conv_Cons)

theorem double_q_update_rule_witness:
  "\<exists>s'. Double_Q_Learning_update c5_agent [0, 0, 0, 0] 1 1 [0, 0, 0, 0] = Inr s'
      \<and> tbl_read 2 (qa_values s') [PyInt 2, PyInt 2, PyInt 2, PyInt 2] 1 = Inr (1/2)"
proof -
  let ?k = "[PyInt 2, PyInt 2, PyInt 2, PyInt 2]"
  have c: "check_update c5_agent" and n: "num_of_action c5_agent = 2"
    and l: "lr c5_agent = 1/2" and qb: "qb_values c5_agent = []"
    by (simp_all add: c5_agent_def init_def)
  have h3: "tbl_read (num_of_action c5_agent)
      (if check_update c5_agent then qa_values c5_agent else qb_values c5_agent) ?k 1 = Inr 0"
    by (simp add: c5_agent_def init_def tbl_read_def dd_get_def np_zeros_def vec_get_def
        py_index_def)
  have h4: "\<forall>v. tbl_lookup (if check_update c5_agent then qb_values c5_agent
      else qa_values c5_agent) ?k = Some v \<longrightarrow> elems v \<noteq> []"
    by (simp add: c5_agent_def init_def)
  from double_q_update_rule [OF c5_key c5_key h3 h4, of 1]
  show ?thesis by (simp add: c n l qb max_or_zero_def)
qed

lemma td_assign_in_place_result:
  "td_assign n t k a rate target =
     (case td_assign_in_place n t k a rate target of
        (None, t') \<Rightarrow> Inr t' | (Some e, _) \<Rightarrow> Inl e)"
  by (simp add: td_assign_def td_assign_in_place_def split: sum.splits prod.splits)

lemma update_in_place_result:
  "Double_Q_Learning_update s obs a r obs' =
     (case Double_Q_Learning_update_in_place s obs a r obs' of
        (None, s') \<Rightarrow> Inr s' | (Some e, _) \<Rightarrow> Inl e)"
  by (simp add: Double_Q_Learning_update_def Double_Q_Learning_update_in_place_def
      td_assign_in_place_result split: sum.splits prod.splits option.splits)

lemma update_in_place_returns:
  "Double_Q_Learning_update_in_place s obs a r obs' = (None, s1)
     \<longleftrightarrow> Double_Q_Learning_update s obs a r obs' = Inr s1"
  by (cases "Double_Q_Learning_update_in_place s obs a r obs'")
    (simp add: update_in_place_result split: option.splits)

lemma update_in_place_toggle:
  assumes "Double_Q_Learning_update_in_place s obs a r obs' = (e, s1)"
  shows "check_update s1 = (if e = None then \<not> check_update s else check_update s)"
  using assms
  by (auto simp: Double_Q_Learning_update_in_place_def
      split: sum.splits prod.splits option.splits if_splits)

lemma td_assign_returns:
  assumes "td_assign n t k a rate target = Inr t'"
  shows "\<exists>old. tbl_read n t k a = Inr old
           \<and> tbl_read n t' k a = Inr (old + rate * (target - old))"
proof -
  from assms obtain row t1 old where "dd_get n t k = Inr (row, t1)" and "vec_get row a = Inr old"
    by (auto simp: td_assign_def ebind_eq_Inr)
  then have r: "tbl_read n t k a = Inr old" by (simp add: tbl_read_def)
  from td_assign_cell [OF r, of rate target] assms
  have "tbl_read n t' k a = Inr (old + rate * (target - old))" by auto
  with r show ?thesis by blast
qed

lemma best_next_value: "best_next t k = Inr b \<Longrightarrow> b = max_or_zero t k"
proof -
  assume b: "best_next t k = Inr b"
  have "\<forall>v. tbl_lookup t k = Some v \<longrightarrow> elems v \<noteq> []"
  proof (intro allI impI)
    fix v assume "tbl_lookup t k = Some v"
    with b have "np_max (elems v) = Inr b" by (simp add: best_next_def)
    then show "elems v \<noteq> []" by (auto simp: np_max_def)
  qed
  from best_next_max_or_zero [OF this] b show ?thesis by simp
qed

lemma update_written:
  assumes "Double_Q_Learning_update s obs a r obs' = Inr s1"
  shows "\<exists>k k' old. discretize_state s obs = Inr k \<and> discretize_state s obs' = Inr k'
     \<and> (if check_update s
        then td_written s (qa_values s) (qb_values s) k a r k' old (qa_values s1)
           \<and> qb_values s1 = qb_values s
        else td_written s (qb_values s) (qa_values s) k a r k' old (qb_values s1)
           \<and> qa_values s1 = qa_values s)"
proof -
  from assms obtain k k' where k: "discretize_state s obs = Inr k"
    and k': "discretize_state s obs' = Inr k'" and
    u: "(if check_update s then
           ebind (best_next (qb_values s) k') (\<lambda>best_q_b.
           ebind (td_assign (num_of_action s) (qa_values s) k a (lr s)
                    (r + discount_factor s * best_q_b)) (\<lambda>qa.
             Inr (s\<lparr>qa_values := qa, check_update := \<not> check_update s\<rparr>)))
         else
           ebind (best_next (qa_values s) k') (\<lambda>best_q_a.
           ebind (td_assign (num_of_action s) (qb_values s) k a (lr s)
                    (r + discount_factor s * best_q_a)) (\<lambda>qb.
             Inr (s\<lparr>qb_values := qb, check_update := \<not> check_update s\<rparr>)))) = Inr s1"
    unfolding Double_Q_Learning_update_def ebind_eq_Inr by blast
  show ?thesis
  proof (cases "check_update s")
    case True
    with u obtain b qa where b: "best_next (qb_values s) k' = Inr b"
      and t: "td_assign (num_of_action s) (qa_values s) k a (lr s)
                (r + discount_factor s * b) = Inr qa"
      and s1: "s1 = s\<lparr>qa_values := qa, check_update := \<not> check_update s\<rparr>"
      by (auto simp: ebind_eq_Inr)
    from best_next_value [OF b] have bv: "b = max_or_zero (qb_values s) k'" .
    from td_assign_returns [OF t] obtain old where
      "tbl_read (num_of_action s) (qa_values s) k a = Inr old"
      "tbl_read (num_of_action s) qa k a
         = Inr (old + lr s * (r + discount_factor s * b - old))"
      by blast
    then have "td_written s (qa_values s) (qb_values s) k a r k' old (qa_values s1)"
      by (simp add: td_written_def s1 bv)
    moreover have "qb_values s1 = qb_values s" by (simp add: s1)
    ultimately show ?thesis using True k k' by auto
  next
    case False
    with u obtain b qb where b: "best_next (qa_values s) k' = Inr b"
      and t: "td_assign (num_of_action s) (qb_values s) k a (lr s)
                (r + discount_factor s * b) = Inr qb"
      and s1: "s1 = s\<lparr>qb_values := qb, check_update := \<not> check_update s\<rparr>"
      by (auto simp: ebind_eq_Inr)
    from best_next_value [OF b] have bv: "b = max_or_zero (qa_values s) k'" .
    from td_assign_returns [OF t] obtain old where
      "tbl_read (num_of_action s) (qb_values s) k a = Inr old"
      "tbl_read (num_of_action s) qb k a
         = Inr (old + lr s * (r + discount_factor s * b - old))"
      by blast
    then have "td_written s (qb_values s) (qa_values s) k a r k' old (qb_values s1)"
      by (simp add: td_written_def s1 bv)
    moreover have "qa_values s1 = qa_values s" by (simp add: s1)
    ultimately show ?thesis using False k k' by auto
  qed
qed

lemma c6_key: "discretize_state c6_s1 [0, 0, 0, 0] = Inr [PyInt 2, PyInt 2, PyInt 2, PyInt 2]"
  by (simp add: c6_s1_def c5_agent_def init_def discretize_state_def linspace_def torch_clip_def
      Let_def upt_conv_Cons)

lemma c6_step1: "Double_Q_Learning_update c5_agent [0, 0, 0, 0] 1 1 [0, 0, 0, 0] = Inr c6_s1"
  unfolding Double_Q_Learning_update_def c5_key
  by (simp add: c6_s1_def c5_agent_def init_def best_next_def td_assign_def dd_get_def
      np_zeros_def vec_get_def vec_set_def py_index_def numeral_2_eq_2)

lemma c6_step2: "Double_Q_Learning_update c6_s1 [0, 0, 0, 0] 1 1 [0, 0, 0, 0] = Inr c6_s2"
  unfolding Double_Q_Learning_update_def c6_key
  by (simp add: c6_s2_def c6_s1_def c5_agent_def init_def best_next_def td_assign_def dd_get_def
      np_zeros_def np_max_def vec_get_def vec_set_def py_index_def key_val_def numeral_2_eq_2)

text \<open>
  C6 (as amended). A call of the update that returns flips the toggle, and a call that
  raises leaves the toggle as it was. Of two consecutive calls that return, the first writes
  the updated value into its cell of one table and leaves the other table untouched, and
  the second writes into the other table and leaves the first one untouched: the writes go
  to \<open>Qa\<close> then \<open>Qb\<close>, or \<open>Qb\<close> then \<open>Qa\<close>, never to the same table twice in a row.
\<close>

theorem double_q_toggle_alternates:
  assumes "Double_Q_Learning_update_in_place s obs a r obs' = (e1, s1)"
    and "Double_Q_Learning_update_in_place s1 obs2 a2 r2 obs2' = (e2, s2)"
  shows "check_update s1 = (if e1 = None then \<not> check_update s else check_update s)
       \<and> check_update s2 = (if e2 = None then \<not> check_update s1 else check_update s1)
       \<and> (e1 = None \<and> e2 = None \<longrightarrow>
           (\<exists>k k' old k2 k2' old2.
              discretize_state s obs = Inr k \<and> discretize_state s obs' = Inr k'
            \<and> discretize_state s1 obs2 = Inr k2 \<and> discretize_state s1 obs2' = Inr k2'
            \<and> (if check_update s
               then td_written s (qa_values s) (qb_values s) k a r k' old (qa_values s1)
                  \<and> qb_values s1 = qb_values s
                  \<and> td_written s1 (qb_values s1) (qa_values s1) k2 a2 r2 k2' old2 (qb_values s2)
                  \<and> qa_values s2 = qa_values s1
               else td_written s (qb_values s) (qa_values s) k a r k' old (qb_values s1)
                  \<and> qa_values s1 = qa_values s
                  \<and> td_written s1 (qa_values s1) (qb_values s1) k2 a2 r2 k2' old2 (qa_values s2)
                  \<and> qb_values s2 = qb_values s1)))"
proof (intro conjI impI)
  show "check_update s1 = (if e1 = None then \<not> check_update s else check_update s)"
    by (rule update_in_place_toggle [OF assms(1)])
  show "check_update s2 = (if e2 = None then \<not> check_update s1 else check_update s1)"
    by (rule update_in_place_toggle [OF assms(2)])
next
  assume n: "e1 = None \<and> e2 = None"
  with assms have u1: "Double_Q_Learning_update s obs a r obs' = Inr s1"
    and u2: "Double_Q_Learning_update s1 obs2 a2 r2 obs2' = Inr s2"
    by (simp_all add: update_in_place_returns)
  from update_in_place_toggle [OF assms(1)] n have c1: "check_update s1 = (\<not> check_update s)"
    by simp
  from update_written [OF u1] obtain k k' old where
    k: "discretize_state s obs = Inr k" "discretize_state s obs' = Inr k'"
    and w1: "if check_update s
        then td_written s (qa_values s) (qb_values s) k a r k' old (qa_values s1)
           \<and> qb_values s1 = qb_values s
        else td_written s (qb_values s) (qa_values s) k a r k' old (qb_values s1)
           \<and> qa_values s1 = qa_values s"
    by blast
  from update_written [OF u2] obtain k2 k2' old2 where
    k2: "discretize_state s1 obs2 = Inr k2" "discretize_state s1 obs2' = Inr k2'"
    and w2: "if check_update s1
        then td_written s1 (qa_values s1) (qb_values s1) k2 a2 r2 k2' old2 (qa_values s2)
           \<and> qb_values s2 = qb_values s1
        else td_written s1 (qb_values s1) (qa_values s1) k2 a2 r2 k2' old2 (qb_values s2)
           \<and> qa_values s2 = qa_values s1"
    by blast
  show "\<exists>k k' old k2 k2' old2.
              discretize_state s obs = Inr k \<and> discretize_state s obs' = Inr k'
            \<and> discretize_state s1 obs2 = Inr k2 \<and> discretize_state s1 obs2' = Inr k2'
            \<and> (if check_update s
               then td_written s (qa_values s) (qb_values s) k a r k' old (qa_values s1)
                  \<and> qb_values s1 = qb_values s
                  \<and> td_written s1 (qb_values s1) (qa_values s1) k2 a2 r2 k2' old2 (qb_values s2)
                  \<and> qa_values s2 = qa_values s1
               else td_written s (qb_values s) (qa_values s) k a r k' old (qb_values s1)
                  \<and> qa_values s1 = qa_values s
                  \<and> td_written s1 (qa_values s1) (qb_values s1) k2 a2 r2 k2' old2 (qa_values s2)
                  \<and> qb_values s2 = qb_values s1)"
  proof (cases "check_update s")
    case True
    with c1 w1 w2 k k2 show ?thesis by (intro exI [of _ k] exI [of _ k'] exI [of _ old]
          exI [of _ k2] exI [of _ k2'] exI [of _ old2]) simp
  next
    case False
    with c1 w1 w2 k k2 show ?thesis by (intro exI [of _ k] exI [of _ k'] exI [of _ old]
          exI [of _ k2] exI [of _ k2'] exI [of _ old2]) simp
  qed
qed

theorem double_q_toggle_alternates_witness:
  "check_update c5_agent \<and> \<not> check_update c6_s1 \<and> check_update c6_s2
   \<and> qb_values c6_s1 = qb_values c5_agent \<and> qa_values c6_s2 = qa_values c6_s1
   \<and> tbl_read 2 (qa_values c5_agent) [PyInt 2, PyInt 2, PyInt 2, PyInt 2] 1 = Inr 0
   \<and> tbl_read 2 (qa_values c6_s1) [PyInt 2, PyInt 2, PyInt 2, PyInt 2] 1 = Inr (1/2)
   \<and> tbl_read 2 (qb_values c6_s1) [PyInt 2, PyInt 2, PyInt 2, PyInt 2] 1 = Inr 0
   \<and> tbl_read 2 (qb_values c6_s2) [PyInt 2, PyInt 2, PyInt 2, PyInt 2] 1 = Inr (29/40)"
proof -
  let ?k = "[PyInt 2, PyInt 2, PyInt 2, PyInt 2]"
  have i1: "Double_Q_Learning_update_in_place c5_agent [0, 0, 0, 0] 1 1 [0, 0, 0, 0]
            = (None, c6_s1)"
    by (simp add: update_in_place_returns c6_step1)
  have i2: "Double_Q_Learning_update_in_place c6_s1 [0, 0, 0, 0] 1 1 [0, 0, 0, 0]
            = (None, c6_s2)"
    by (simp add: update_in_place_returns c6_step2)
  have c: "check_update c5_agent" by (simp add: c5_agent_def init_def)
  from double_q_toggle_alternates [OF i1 i2] c
  obtain k k' old k2 k2' old2 where t: "\<not> check_update c6_s1" "check_update c6_s2"
    and k: "discretize_state c5_agent [0, 0, 0, 0] = Inr k"
      "discretize_state c5_agent [0, 0, 0, 0] = Inr k'"
      "discretize_state c6_s1 [0, 0, 0, 0] = Inr k2"
      "discretize_state c6_s1 [0, 0, 0, 0] = Inr k2'"
    and w1: "td_written c5_agent (qa_values c5_agent) (qb_values c5_agent) k 1 1 k' old
               (qa_values c6_s1)"
    and f1: "qb_values c6_s1 = qb_values c5_agent"
    and w2: "td_written c6_s1 (qb_values c6_s1) (qa_values c6_s1) k2 1 1 k2' old2
               (qb_values c6_s2)"
    and f2: "qa_values c6_s2 = qa_values c6_s1"
    by auto
  from k have ks: "k = ?k" "k' = ?k" "k2 = ?k" "k2' = ?k"
    by (simp_all add: c5_key c6_key)
  have n: "num_of_action c5_agent = 2" "lr c5_agent = 1/2" "discount_factor c5_agent = 9/10"
    "num_of_action c6_s1 = 2" "lr c6_s1 = 1/2" "discount_factor c6_s1 = 9/10"
    by (simp_all add: c6_s1_def c5_agent_def init_def)
  have m1: "max_or_zero (qb_values c5_agent) ?k = 0"
    by (simp add: max_or_zero_def c5_agent_def init_def)
  have m2: "max_or_zero (qa_values c6_s1) ?k = 1/2"
    by (simp add: max_or_zero_def c6_s1_def c5_agent_def init_def)
  from w1 have "tbl_read 2 (qa_values c5_agent) ?k 1 = Inr old"
    and "tbl_read 2 (qa_values c6_s1) ?k 1 = Inr (old + 1/2 * (1 + 9/10 * 0 - old))"
    by (simp_all add: td_written_def ks n m1)
  moreover have "tbl_read 2 (qa_values c5_agent) ?k 1 = Inr 0"
    by (simp add: c5_agent_def init_def tbl_read_def dd_get_def np_zeros_def vec_get_def
        py_index_def)
  ultimately have r1: "tbl_read 2 (qa_values c5_agent) ?k 1 = Inr 0"
    "tbl_read 2 (qa_values c6_s1) ?k 1 = Inr (1/2)"
    by simp_all
  from w2 have "tbl_read 2 (qb_values c6_s1) ?k 1 = Inr old2"
    and "tbl_read 2 (qb_values c6_s2) ?k 1 = Inr (old2 + 1/2 * (1 + 9/10 * (1/2) - old2))"
    by (simp_all add: td_written_def ks n m2)
  moreover have "tbl_read 2 (qb_values c6_s1) ?k 1 = Inr 0"
    by (simp add: c6_s1_def c5_agent_def init_def tbl_read_def dd_get_def np_zeros_def vec_get_def
        py_index_def)
  ultimately have r2: "tbl_read 2 (qb_values c6_s1) ?k 1 = Inr 0"
    "tbl_read 2 (qb_values c6_s2) ?k 1 = Inr (29/40)"
    by simp_all
  from c t f1 f2 r1 r2 show ?thesis by simp
qed

text \<open>
  The claim as stated has the toggle flip after every call, whether it succeeds or fails.
  A fresh agent with two actions is called with the action index 2: the \<^verbatim>\<open>defaultdict\<close>
  creates the zero row in \<open>Qa\<close>, reading its cell 2 raises \<^verbatim>\<open>IndexError\<close>, and the toggle
  still selects \<open>Qa\<close>; the next call, which returns, writes to \<open>Qa\<close> again.
\<close>

theorem double_q_toggle_raise_counterexample:
  "Double_Q_Learning_update_in_place c5_agent [0, 0, 0, 0] 2 1 [0, 0, 0, 0]
     = (Some IndexError, c6_raised)
   \<and> check_update c5_agent \<and> check_update c6_raised
   \<and> qa_values c5_agent = []
   \<and> qa_values c6_raised = [([PyInt 2, PyInt 2, PyInt 2, PyInt 2], NdArray [0, 0])]
   \<and> Double_Q_Learning_update_in_place c6_raised [0, 0, 0, 0] 1 1 [0, 0, 0, 0] = (None, c6_s1)
   \<and> qa_values c6_s1 = [([PyInt 2, PyInt 2, PyInt 2, PyInt 2], NdArray [0, 1/2])]"
proof -
  have k: "discretize_state c6_raised [0, 0, 0, 0] = Inr [PyInt 2, PyInt 2, PyInt 2, PyInt 2]"
    by (simp add: c6_raised_def c5_agent_def init_def discretize_state_def linspace_def
        torch_clip_def Let_def upt_conv_Cons)
  have 1: "Double_Q_Learning_update_in_place c5_agent [0, 0, 0, 0] 2 1 [0, 0, 0, 0]
             = (Some IndexError, c6_raised)"
    unfolding Double_Q_Learning_update_in_place_def c5_key
    by (simp add: c6_raised_def c5_agent_def init_def best_next_def td_assign_in_place_def
        dd_get_def np_zeros_def vec_get_def py_index_def numeral_2_eq_2)
  have 2: "Double_Q_Learning_update_in_place c6_raised [0, 0, 0, 0] 1 1 [0, 0, 0, 0]
             = (None, c6_s1)"
    unfolding Double_Q_Learning_update_in_place_def k
    by (simp add: c6_s1_def c6_raised_def c5_agent_def init_def best_next_def
        td_assign_in_place_def dd_get_def np_zeros_def vec_get_def vec_set_def py_index_def
        key_val_def numeral_2_eq_2)
  from 1 2 show ?thesis by (simp add: c6_s1_def c6_raised_def c5_agent_def init_def)
qed

subsection \<open>Monte Carlo: returns and the first-visit scan\<close>

lemma returns_loop_spec:
  assumes "i \<le> length rl"
  shows "length (returns_loop d rs i G rl) = length rl
       \<and> (\<forall>j. i \<le> j \<longrightarrow> returns_loop d rs i G rl ! j = rl ! j)
       \<and> (\<forall>j < i. returns_loop d rs i G rl ! j
              = rs ! j + d * (if Suc j < i then returns_loop d rs i G rl ! Suc j else G))"
  using assms
proof (induction i arbitrary: G rl)
  case 0
  show ?case by simp
next
  case (Suc i)
  define G' where "G' = rs ! i + d * G"
  define rl' where "rl' = rl[i := G']"
  define res where "res = returns_loop d rs i G' rl'"
  have eq: "returns_loop d rs (Suc i) G rl = res"
    by (simp add: res_def rl'_def G'_def Let_def)
  have "i \<le> length rl'" using Suc.prems by (simp add: rl'_def)
  from Suc.IH [OF this, of G'] have
    len: "length res = length rl'" and
    keep: "\<And>j. i \<le> j \<Longrightarrow> res ! j = rl' ! j" and
    rec: "\<And>j. j < i \<Longrightarrow> res ! j = rs ! j + d * (if Suc j < i then res ! Suc j else G')"
    unfolding res_def by blast+
  have at_i: "res ! i = G'" using keep [of i] Suc.prems by (simp add: rl'_def)
  have 1: "length res = length rl" using len by (simp add: rl'_def)
  have 2: "res ! j = rl ! j" if "Suc i \<le> j" for j
    using keep [of j] that by (simp add: rl'_def)
  have 3: "res ! j = rs ! j + d * (if Suc j < Suc i then res ! Suc j else G)" if "j < Suc i" for j
  proof (cases "j = i")
    case True
    then show ?thesis using at_i by (simp add: G'_def)
  next
    case False
    with that have ji: "j < i" by simp
    show ?thesis
    proof (cases "Suc j < i")
      case True
      with rec [OF ji] ji show ?thesis by simp
    next
      case False
      with ji have "Suc j = i" by simp
      with rec [OF ji] ji at_i show ?thesis by simp
    qed
  qed
  from 1 2 3 show ?case unfolding eq by blast
qed

lemma compute_returns_spec:
  "length (compute_returns d rs) = length rs
   \<and> (\<forall>i < length rs. compute_returns d rs ! i
         = rs ! i + d * (if Suc i < length rs then compute_returns d rs ! Suc i else 0))"
  using returns_loop_spec [of "length rs" "replicate (length rs) 0" d rs 0]
  by (simp add: compute_returns_def)

lemma tbl_lookup_in_set: "tbl_lookup t k = Some v \<Longrightarrow> \<exists>k'. (k', v) \<in> set t"
  by (induction t) (auto split: if_splits)

lemma set_tbl_store: "(k', v') \<in> set (tbl_store k v t) \<Longrightarrow> v' = v \<or> (k', v') \<in> set t"
  by (induction t) (auto split: if_splits)

lemma tbl_shaped_store:
  "tbl_shaped n t \<Longrightarrow> length (elems v) = nat n \<Longrightarrow> tbl_shaped n (tbl_store k v t)"
  unfolding tbl_shaped_def by (auto dest: set_tbl_store)

lemma tbl_nonneg_store:
  "tbl_nonneg t \<Longrightarrow> \<forall>x \<in> set (elems v). 0 \<le> x \<Longrightarrow> tbl_nonneg (tbl_store k v t)"
  unfolding tbl_nonneg_def by (auto dest: set_tbl_store)

lemma row_of_length: "tbl_shaped n t \<Longrightarrow> length (row_of n t k) = nat n"
  unfolding row_of_def tbl_shaped_def
  by (auto split: option.splits dest: tbl_lookup_in_set)

lemma row_of_nonneg:
  assumes "tbl_nonneg t" and "x \<in> set (row_of n t k)"
  shows "0 \<le> x"
proof (cases "tbl_lookup t k")
  case None
  with assms(2) show ?thesis by (auto simp: row_of_def)
next
  case (Some v)
  then obtain k' where "(k', v) \<in> set t" using tbl_lookup_in_set by blast
  with assms(1) have "\<forall>y \<in> set (elems v). 0 \<le> y" unfolding tbl_nonneg_def by blast
  with assms(2) Some show ?thesis by (simp add: row_of_def)
qed

lemma row_of_store:
  "row_of n (tbl_store k v t) k' = (if key_val k' = key_val k then elems v else row_of n t k')"
  by (simp add: row_of_def tbl_lookup_store)

text \<open>What reading through the defaultdict gives on a well-shaped table.\<close>

lemma dd_get_row:
  assumes "0 \<le> n"
  shows "\<exists>v t1. dd_get n t k = Inr (v, t1) \<and> elems v = row_of n t k
           \<and> (\<forall>w. tbl_store k w t1 = tbl_store k w t)"
proof (cases "tbl_lookup t k")
  case None
  have "tbl_store k w (tbl_store k z t) = tbl_store k w t" for w z
    by (induction t) auto
  with None assms show ?thesis
    by (simp add: dd_get_def np_zeros_def row_of_def)
next
  case (Some v)
  then show ?thesis by (simp add: dd_get_def row_of_def)
qed

lemma tbl_read_cell:
  assumes "tbl_shaped n t" and "0 \<le> a" and "a < n"
  shows "tbl_read n t k a = Inr (cell n t k a)"
proof -
  from assms have n: "0 \<le> n" by simp
  from dd_get_row [OF n, of t k] obtain v t1 where
    g: "dd_get n t k = Inr (v, t1)" and e: "elems v = row_of n t k" by blast
  have "length (elems v) = nat n" using e row_of_length [OF assms(1)] by simp
  with assms(2,3) have "py_index (length (elems v)) a = Inr (nat a)"
    by (simp add: py_index_def)
  then show ?thesis by (simp add: tbl_read_def g vec_get_def cell_def e)
qed

lemma vec_set_elems:
  "0 \<le> a \<Longrightarrow> nat a < length (elems v) \<Longrightarrow>
     \<exists>v'. vec_set v a x = Inr v' \<and> elems v' = (elems v)[nat a := x]"
  by (simp add: vec_set_def py_index_def)

lemma vec_get_elems:
  "0 \<le> a \<Longrightarrow> nat a < length (elems v) \<Longrightarrow> vec_get v a = Inr (elems v ! nat a)"
  by (simp add: vec_get_def py_index_def)

lemma first_visit_spec:
  assumes sq: "tbl_shaped n q" and sn: "tbl_shaped n nv" and nn: "tbl_nonneg nv"
    and a: "0 \<le> a" "a < n" and t: "t < length rl"
  shows "\<exists>q' nv'. first_visit n rl t k a (q, nv) = Inr (q', nv')
          \<and> tbl_shaped n q' \<and> tbl_shaped n nv' \<and> tbl_nonneg nv'
          \<and> (\<forall>k'. row_of n nv' k' =
                 (if key_val k' = key_val k
                  then (row_of n nv k)[nat a := cell n nv k a + 1] else row_of n nv k'))
          \<and> (\<forall>k'. row_of n q' k' =
                 (if key_val k' = key_val k
                  then (row_of n q k)[nat a := cell n q k a
                          + (1 / (cell n nv k a + 1)) * (rl ! t - cell n q k a)]
                  else row_of n q k'))"
proof -
  from a have n: "0 \<le> n" by simp
  define c where "c = cell n nv k a"
  define old where "old = cell n q k a"
  from dd_get_row [OF n, of nv k] obtain nrow nv1 where
    g1: "dd_get n nv k = Inr (nrow, nv1)" and e1: "elems nrow = row_of n nv k"
    and s1: "\<And>w. tbl_store k w nv1 = tbl_store k w nv" by blast
  have l1: "nat a < length (elems nrow)" using e1 row_of_length [OF sn] a by simp
  have r1: "vec_get nrow a = Inr c"
    using vec_get_elems [OF a(1) l1] by (simp add: c_def cell_def e1)
  from vec_set_elems [OF a(1) l1] obtain nrow' where
    w1: "vec_set nrow a (c + 1) = Inr nrow'" and e1': "elems nrow' = (elems nrow)[nat a := c + 1]"
    by blast
  have "c \<in> set (row_of n nv k)" using l1 e1 by (simp add: c_def cell_def)
  then have c0: "0 \<le> c" using row_of_nonneg [OF nn] by blast
  then have st: "step_size (c + 1) = Inr (1 / (c + 1))" by (simp add: step_size_def)
  from dd_get_row [OF n, of q k] obtain qrow q1 where
    g2: "dd_get n q k = Inr (qrow, q1)" and e2: "elems qrow = row_of n q k"
    and s2: "\<And>w. tbl_store k w q1 = tbl_store k w q" by blast
  have l2: "nat a < length (elems qrow)" using e2 row_of_length [OF sq] a by simp
  have r2: "vec_get qrow a = Inr old"
    using vec_get_elems [OF a(1) l2] by (simp add: old_def cell_def e2)
  have lg: "list_get rl t = Inr (rl ! t)" using t by (simp add: list_get_def)
  define alpha where "alpha = 1 / (c + 1)"
  define newv where "newv = old + alpha * (rl ! t - old)"
  from vec_set_elems [OF a(1) l2] obtain qrow' where
    w2: "vec_set qrow a newv = Inr qrow'"
    and e2': "elems qrow' = (elems qrow)[nat a := newv]"
    by blast
  have st': "step_size (c + 1) = Inr alpha" using st by (simp add: alpha_def)
  have res: "first_visit n rl t k a (q, nv) = Inr (tbl_store k qrow' q, tbl_store k nrow' nv)"
    unfolding first_visit_def
    by (simp add: g1 r1 w1 st' g2 r2 lg w2 [unfolded newv_def] s1 s2)
  have shq: "tbl_shaped n (tbl_store k qrow' q)"
    using sq by (rule tbl_shaped_store) (simp add: e2' e2 row_of_length [OF sq])
  have shn: "tbl_shaped n (tbl_store k nrow' nv)"
    using sn by (rule tbl_shaped_store) (simp add: e1' e1 row_of_length [OF sn])
  have sub: "set ((row_of n nv k)[nat a := c + 1]) \<subseteq> insert (c + 1) (set (row_of n nv k))"
    by (rule set_update_subset_insert)
  have "\<forall>x \<in> set (elems nrow'). 0 \<le> x"
  proof
    fix x assume "x \<in> set (elems nrow')"
    then have "x \<in> set ((row_of n nv k)[nat a := c + 1])" by (simp only: e1' e1)
    with sub have "x = c + 1 \<or> x \<in> set (row_of n nv k)" by blast
    then show "0 \<le> x"
    proof
      assume "x = c + 1" with c0 show ?thesis by simp
    next
      assume "x \<in> set (row_of n nv k)" with nn show ?thesis by (rule row_of_nonneg)
    qed
  qed
  with nn have nnn: "tbl_nonneg (tbl_store k nrow' nv)" by (rule tbl_nonneg_store)
  have rn: "\<forall>k'. row_of n (tbl_store k nrow' nv) k' =
      (if key_val k' = key_val k then (row_of n nv k)[nat a := cell n nv k a + 1]
       else row_of n nv k')"
    by (simp add: row_of_store e1' e1 c_def)
  have rq: "\<forall>k'. row_of n (tbl_store k qrow' q) k' =
      (if key_val k' = key_val k
       then (row_of n q k)[nat a := cell n q k a
               + (1 / (cell n nv k a + 1)) * (rl ! t - cell n q k a)]
       else row_of n q k')"
    by (simp add: row_of_store e2' e2 newv_def alpha_def c_def old_def)
  from res shq shn nnn rn rq show ?thesis by blast
qed

lemma scan_post_cong:
  "cell n (fst qn) k a = cell n (fst qn0) k a \<Longrightarrow> cell n (snd qn) k a = cell n (snd qn0) k a
     \<Longrightarrow> scan_post n rl qn qn' k a f = scan_post n rl qn0 qn' k a f"
  by (cases f) (simp_all add: scan_post_def)

lemma cell_after_first_visit:
  assumes "tbl_shaped n t"
    and "\<forall>k'. row_of n t' k' =
           (if key_val k' = key_val k then (row_of n t k)[nat a := x] else row_of n t k')"
    and "0 \<le> a" "a < n" "0 \<le> a'" "a' < n"
  shows "cell n t' k' a' = (if (key_val k', a') = (key_val k, a) then x else cell n t k' a')"
proof (cases "key_val k' = key_val k")
  case False
  with assms(2) show ?thesis by (simp add: cell_def)
next
  case True
  then have same: "row_of n t k' = row_of n t k"
    by (simp add: row_of_def tbl_lookup_cong [of k' k])
  have len: "nat a < length (row_of n t k)"
    using row_of_length [OF assms(1), of k] assms(3,4) by simp
  show ?thesis
  proof (cases "a' = a")
    case True
    with \<open>key_val k' = key_val k\<close> assms(2) len show ?thesis by (simp add: cell_def)
  next
    case False
    with assms(3,5) have "nat a \<noteq> nat a'" by simp
    with \<open>key_val k' = key_val k\<close> assms(2) False same show ?thesis by (simp add: cell_def)
  qed
qed

lemma mc_scan_spec:
  assumes "tbl_shaped n q" and "tbl_shaped n nv" and "tbl_nonneg nv"
    and "\<forall>t \<in> set ts. t < length obs \<and> t < length acts \<and> t < length rl
           \<and> 0 \<le> acts ! t \<and> acts ! t < n"
  shows "\<exists>q' nv'. mc_scan n obs acts rl ts (q, nv) V = Inr (q', nv')
           \<and> tbl_shaped n q' \<and> tbl_shaped n nv' \<and> tbl_nonneg nv'
           \<and> (\<forall>k a. 0 \<le> a \<and> a < n \<longrightarrow>
                 scan_post n rl (q, nv) (q', nv') k a (first_new obs acts ts V (key_val k, a)))"
  using assms
proof (induction ts arbitrary: q nv V)
  case Nil
  then show ?case by (simp add: first_new_def scan_post_def)
next
  case (Cons t ts)
  from Cons.prems(4) have t: "t < length obs" "t < length acts" "t < length rl"
    "0 \<le> acts ! t" "acts ! t < n"
    and rest: "\<forall>t \<in> set ts. t < length obs \<and> t < length acts \<and> t < length rl
           \<and> 0 \<le> acts ! t \<and> acts ! t < n"
    by simp_all
  define st where "st = obs ! t"
  define ac where "ac = acts ! t"
  have pt: "pair_at obs acts t = (key_val st, ac)" by (simp add: pair_at_def st_def ac_def)
  have lg: "list_get obs t = Inr st" "list_get acts t = Inr ac"
    using t by (simp_all add: list_get_def st_def ac_def)
  show ?case
  proof (cases "(key_val st, ac) \<in> V")
    case True
    have step: "mc_scan n obs acts rl (t # ts) (q, nv) V = mc_scan n obs acts rl ts (q, nv) V"
      using True by (simp add: lg)
    from Cons.IH [OF Cons.prems(1,2,3) rest, of V] obtain q' nv' where
      r: "mc_scan n obs acts rl ts (q, nv) V = Inr (q', nv')"
      and inv: "tbl_shaped n q'" "tbl_shaped n nv'" "tbl_nonneg nv'"
      and post: "\<And>k a. 0 \<le> a \<and> a < n \<Longrightarrow>
             scan_post n rl (q, nv) (q', nv') k a (first_new obs acts ts V (key_val k, a))"
      by blast
    have fn: "first_new obs acts (t # ts) V p = first_new obs acts ts V p" for p
      using True by (auto simp: first_new_def pt)
    from r inv post show ?thesis unfolding step fn by blast
  next
    case False
    from first_visit_spec [OF Cons.prems(1,2,3) t(4,5) t(3), of st, folded ac_def]
    obtain q1 nv1 where
      fv: "first_visit n rl t st ac (q, nv) = Inr (q1, nv1)"
      and inv1: "tbl_shaped n q1" "tbl_shaped n nv1" "tbl_nonneg nv1"
      and rn: "\<forall>k'. row_of n nv1 k' =
                 (if key_val k' = key_val st
                  then (row_of n nv st)[nat ac := cell n nv st ac + 1] else row_of n nv k')"
      and rq: "\<forall>k'. row_of n q1 k' =
                 (if key_val k' = key_val st
                  then (row_of n q st)[nat ac := cell n q st ac
                          + (1 / (cell n nv st ac + 1)) * (rl ! t - cell n q st ac)]
                  else row_of n q k')"
      by blast
    define V1 where "V1 = insert (key_val st, ac) V"
    have step: "mc_scan n obs acts rl (t # ts) (q, nv) V = mc_scan n obs acts rl ts (q1, nv1) V1"
      using False by (simp add: lg fv V1_def)
    from Cons.IH [OF inv1 rest, of V1] obtain q' nv' where
      r: "mc_scan n obs acts rl ts (q1, nv1) V1 = Inr (q', nv')"
      and inv: "tbl_shaped n q'" "tbl_shaped n nv'" "tbl_nonneg nv'"
      and post: "\<And>k a. 0 \<le> a \<and> a < n \<Longrightarrow>
             scan_post n rl (q1, nv1) (q', nv') k a (first_new obs acts ts V1 (key_val k, a))"
      by blast
    have ac: "0 \<le> ac" "ac < n" using t by (simp_all add: ac_def)
    have goal: "scan_post n rl (q, nv) (q', nv') k a (first_new obs acts (t # ts) V (key_val k, a))"
      if a: "0 \<le> a \<and> a < n" for k a
    proof -
      have cn: "cell n nv1 k a =
          (if (key_val k, a) = (key_val st, ac) then cell n nv st ac + 1 else cell n nv k a)"
        using Cons.prems(2) rn ac a by (intro cell_after_first_visit) simp_all
      have cq: "cell n q1 k a =
          (if (key_val k, a) = (key_val st, ac)
           then cell n q st ac + (1 / (cell n nv st ac + 1)) * (rl ! t - cell n q st ac)
           else cell n q k a)"
        using Cons.prems(1) rq ac a by (intro cell_after_first_visit) simp_all
      show ?thesis
      proof (cases "(key_val k, a) = (key_val st, ac)")
        case True
        then have kk: "key_val k = key_val st" and aa: "a = ac" by simp_all
        have f1: "first_new obs acts (t # ts) V (key_val k, a) = Some t"
          using False True by (simp add: first_new_def pt)
        have f2: "first_new obs acts ts V1 (key_val k, a) = None"
          using True by (simp add: first_new_def V1_def)
        have "scan_post n rl (q1, nv1) (q', nv') k a None"
          using post [OF a, of k] by (simp only: f2)
        then have "cell n nv' k a = cell n nv1 k a" and "cell n q' k a = cell n q1 k a"
          by (simp_all add: scan_post_def)
        moreover have same: "cell n t' st ac = cell n t' k a" for t'
          by (simp add: cell_def row_of_def aa tbl_lookup_cong [OF kk])
        ultimately show ?thesis
          unfolding f1 using cn cq True by (simp add: scan_post_def same)
      next
        case ne: False
        have f: "first_new obs acts (t # ts) V (key_val k, a) = first_new obs acts ts V1 (key_val k, a)"
          using ne by (auto simp: first_new_def V1_def pt)
        have c1: "cell n nv1 k a = cell n nv k a" and c2: "cell n q1 k a = cell n q k a"
          using cn cq ne by auto
        have "scan_post n rl (q1, nv1) (q', nv') k a (first_new obs acts ts V1 (key_val k, a))"
          using post [OF a, of k] .
        moreover have "scan_post n rl (q1, nv1) (q', nv') k a f
            = scan_post n rl (q, nv) (q', nv') k a f" for f
          by (rule scan_post_cong) (simp_all add: c1 c2)
        ultimately show ?thesis
          unfolding f by simp
      qed
    qed
    from r inv goal show ?thesis unfolding step by blast
  qed
qed

lemma first_new_first_occurrence:
  assumes "first_occurrence obs acts t"
  shows "first_new obs acts [0 ..< length obs] {} (pair_at obs acts t) = Some t"
proof -
  from assms have t: "t < length obs"
    and e: "\<forall>t' < t. pair_at obs acts t' \<noteq> pair_at obs acts t"
    by (simp_all add: first_occurrence_def)
  have "find (\<lambda>u. pair_at obs acts u = pair_at obs acts t) [0 ..< length obs] = Some t"
    unfolding find_Some_iff using t e by (intro exI [of _ t]) simp
  then show ?thesis by (simp add: first_new_def)
qed

lemma first_new_absent:
  assumes "\<forall>t < length obs. pair_at obs acts t \<noteq> p"
  shows "first_new obs acts [0 ..< length obs] {} p = None"
  using assms by (simp add: first_new_def find_None_iff)

lemma discretize_state_lr: "discretize_state (s\<lparr>lr := x\<rparr>) obs = discretize_state s obs"
  by (simp add: discretize_state_def)

text \<open>
  C3. On the Monte Carlo update call with \<open>done = true\<close>, for an agent whose three histories
  have one length, whose recorded actions are indices in \<open>[0, num_of_action)\<close>, whose stored
  rows have \<open>num_of_action\<close> slots and whose visit counts are not negative: the call returns;
  the returns \<open>G\<close> over the accumulated history obey \<open>G_i = reward[i] + \<gamma> * G_(i+1)\<close>, with 0
  past the last recorded step; for each (state, action) pair, at its first occurrence \<open>t\<close>,
  the visit count read after the call is the one before plus exactly 1, \<open>N + 1\<close>, and the
  value read after the call is \<open>Q + (1 / (N + 1)) * (G_t - Q)\<close>, whatever later steps record
  the same pair; cells of pairs that the episode does not record are unchanged; and the
  result is the same for every learning rate \<open>lr\<close>.
\<close>

theorem mc_first_visit_update:
  assumes "discretize_state s obs = Inr k0"
    and "length (action_hist s) = length (obs_hist s)"
    and "length (reward_hist s) = length (obs_hist s)"
    and "\<forall>a \<in> set (action_hist s). 0 \<le> a \<and> a < num_of_action s"
    and "tbl_shaped (num_of_action s) (q_values s)"
    and "tbl_shaped (num_of_action s) (n_values s)"
    and "tbl_nonneg (n_values s)"
  shows "\<exists>s' G. MC_update s True obs action reward = Inr s'
      \<and> G = compute_returns (discount_factor s) (reward_hist s)
      \<and> length G = length (reward_hist s)
      \<and> (\<forall>i < length G. G ! i = reward_hist s ! i
             + discount_factor s * (if Suc i < length G then G ! Suc i else 0))
      \<and> (\<forall>t. first_occurrence (obs_hist s) (action_hist s) t \<longrightarrow>
            (\<exists>N Q. tbl_read (num_of_action s) (n_values s) (obs_hist s ! t) (action_hist s ! t) = Inr N
                 \<and> tbl_read (num_of_action s) (q_values s) (obs_hist s ! t) (action_hist s ! t) = Inr Q
                 \<and> tbl_read (num_of_action s) (n_values s') (obs_hist s ! t) (action_hist s ! t)
                     = Inr (N + 1)
                 \<and> tbl_read (num_of_action s) (q_values s') (obs_hist s ! t) (action_hist s ! t)
                     = Inr (Q + (1 / (N + 1)) * (G ! t - Q))))
      \<and> (\<forall>k a. 0 \<le> a \<and> a < num_of_action s
               \<and> (\<forall>t < length (obs_hist s). pair_at (obs_hist s) (action_hist s) t \<noteq> (key_val k, a))
             \<longrightarrow> tbl_read (num_of_action s) (n_values s') k a
                   = tbl_read (num_of_action s) (n_values s) k a
               \<and> tbl_read (num_of_action s) (q_values s') k a
                   = tbl_read (num_of_action s) (q_values s) k a)
      \<and> (\<forall>x. MC_update (s\<lparr>lr := x\<rparr>) True obs action reward = Inr (s'\<lparr>lr := x\<rparr>))"
proof -
  define n where "n = num_of_action s"
  define hs where "hs = obs_hist s"
  define as where "as = action_hist s"
  define G where "G = compute_returns (discount_factor s) (reward_hist s)"
  have lenG: "length G = length (reward_hist s)"
    and recG: "\<forall>i < length G. G ! i = reward_hist s ! i
             + discount_factor s * (if Suc i < length G then G ! Suc i else 0)"
    using compute_returns_spec [of "discount_factor s" "reward_hist s"] by (simp_all add: G_def)
  have valid: "\<forall>t \<in> set [0 ..< length hs]. t < length hs \<and> t < length as \<and> t < length G
           \<and> 0 \<le> as ! t \<and> as ! t < n"
    using assms(2,3,4) lenG by (simp add: hs_def as_def n_def)
  from mc_scan_spec [OF assms(5,6,7) [folded n_def] valid, of "{}"]
  obtain q' nv' where
    r: "mc_scan n hs as G [0 ..< length hs] (q_values s, n_values s) {} = Inr (q', nv')"
    and sh: "tbl_shaped n q'" "tbl_shaped n nv'"
    and post: "\<And>k a. 0 \<le> a \<and> a < n \<Longrightarrow>
        scan_post n G (q_values s, n_values s) (q', nv') k a
          (first_new hs as [0 ..< length hs] {} (key_val k, a))"
    by blast
  define s' where "s' = s\<lparr>q_values := q', n_values := nv',
                   obs_hist := [], action_hist := [], reward_hist := []\<rparr>"
  have run: "MC_update s True obs action reward = Inr s'"
    using assms(1) r
    by (simp add: MC_update_def Let_def s'_def n_def hs_def as_def G_def)
  have run_lr: "MC_update (s\<lparr>lr := x\<rparr>) True obs action reward = Inr (s'\<lparr>lr := x\<rparr>)" for x
    using assms(1) r
    by (simp add: MC_update_def discretize_state_lr Let_def s'_def n_def hs_def as_def G_def)
  have q': "q_values s' = q'" and nv': "n_values s' = nv'" by (simp_all add: s'_def)
  have first: "\<exists>N Q. tbl_read n (n_values s) (hs ! t) (as ! t) = Inr N
                 \<and> tbl_read n (q_values s) (hs ! t) (as ! t) = Inr Q
                 \<and> tbl_read n (n_values s') (hs ! t) (as ! t) = Inr (N + 1)
                 \<and> tbl_read n (q_values s') (hs ! t) (as ! t)
                     = Inr (Q + (1 / (N + 1)) * (G ! t - Q))"
    if fo: "first_occurrence hs as t" for t
  proof -
    from fo have t: "t < length hs" by (simp add: first_occurrence_def)
    with valid have a: "0 \<le> as ! t \<and> as ! t < n" by simp
    have "first_new hs as [0 ..< length hs] {} (key_val (hs ! t), as ! t) = Some t"
      using first_new_first_occurrence [OF fo] by (simp add: pair_at_def)
    with post [OF a, of "hs ! t"]
    have "scan_post n G (q_values s, n_values s) (q', nv') (hs ! t) (as ! t) (Some t)" by simp
    then have c: "cell n nv' (hs ! t) (as ! t) = cell n (n_values s) (hs ! t) (as ! t) + 1"
      "cell n q' (hs ! t) (as ! t) = cell n (q_values s) (hs ! t) (as ! t)
         + (1 / (cell n (n_values s) (hs ! t) (as ! t) + 1))
           * (G ! t - cell n (q_values s) (hs ! t) (as ! t))"
      by (simp_all add: scan_post_def)
    from a have a1: "0 \<le> as ! t" and a2: "as ! t < n" by simp_all
    show ?thesis
      unfolding q' nv'
      unfolding tbl_read_cell [OF assms(5) [folded n_def] a1 a2]
        tbl_read_cell [OF assms(6) [folded n_def] a1 a2]
        tbl_read_cell [OF sh(1) a1 a2] tbl_read_cell [OF sh(2) a1 a2] c
      by blast
  qed
  have frame: "tbl_read n (n_values s') k a = tbl_read n (n_values s) k a
               \<and> tbl_read n (q_values s') k a = tbl_read n (q_values s) k a"
    if h: "0 \<le> a \<and> a < n \<and> (\<forall>t < length hs. pair_at hs as t \<noteq> (key_val k, a))" for k a
  proof -
    from h have a: "0 \<le> a \<and> a < n" and a1: "0 \<le> a" and a2: "a < n" by simp_all
    from h have "first_new hs as [0 ..< length hs] {} (key_val k, a) = None"
      by (intro first_new_absent) simp
    with post [OF a, of k]
    have "scan_post n G (q_values s, n_values s) (q', nv') k a None" by simp
    then have c: "cell n nv' k a = cell n (n_values s) k a" "cell n q' k a = cell n (q_values s) k a"
      by (simp_all add: scan_post_def)
    show ?thesis
      unfolding q' nv'
      unfolding tbl_read_cell [OF assms(5) [folded n_def] a1 a2]
        tbl_read_cell [OF assms(6) [folded n_def] a1 a2]
        tbl_read_cell [OF sh(1) a1 a2] tbl_read_cell [OF sh(2) a1 a2] c
      by simp
  qed
  from run lenG recG first frame run_lr show ?thesis
    unfolding n_def hs_def as_def G_def by blast
qed

lemma c3_key: "discretize_state c3_agent [0, 0, 0, 0] = Inr [PyInt 2, PyInt 2, PyInt 2, PyInt 2]"
  by (simp add: c3_agent_def init_def discretize_state_def linspace_def torch_clip_def
      Let_def upt_conv_Cons)

lemma c3_returns: "compute_returns 1 [1, 1] = [2, 1]"
  by (simp add: compute_returns_def numeral_2_eq_2 Let_def)

theorem mc_first_visit_update_witness:
  "\<exists>s'. MC_update c3_agent True [0, 0, 0, 0] 0 7 = Inr s'
      \<and> tbl_read 2 (n_values s') [PyInt 2, PyInt 2, PyInt 2, PyInt 2] 1 = Inr 1
      \<and> tbl_read 2 (q_values s') [PyInt 2, PyInt 2, PyInt 2, PyInt 2] 1 = Inr 2"
proof -
  let ?k = "[PyInt 2, PyInt 2, PyInt 2, PyInt 2]"
  have h2: "length (action_hist c3_agent) = length (obs_hist c3_agent)"
    and h3: "length (reward_hist c3_agent) = length (obs_hist c3_agent)"
    and h4: "\<forall>a \<in> set (action_hist c3_agent). 0 \<le> a \<and> a < num_of_action c3_agent"
    and h5: "tbl_shaped (num_of_action c3_agent) (q_values c3_agent)"
    and h6: "tbl_shaped (num_of_action c3_agent) (n_values c3_agent)"
    and h7: "tbl_nonneg (n_values c3_agent)"
    by (simp_all add: c3_agent_def init_def tbl_shaped_def tbl_nonneg_def)
  have f: "first_occurrence (obs_hist c3_agent) (action_hist c3_agent) 0"
    by (simp add: first_occurrence_def c3_agent_def init_def)
  have v: "num_of_action c3_agent = 2" "obs_hist c3_agent ! 0 = ?k" "action_hist c3_agent ! 0 = 1"
    "discount_factor c3_agent = 1" "reward_hist c3_agent = [1, 1]"
    "n_values c3_agent = []" "q_values c3_agent = []"
    by (simp_all add: c3_agent_def init_def)
  have z: "tbl_read 2 [] ?k 1 = Inr 0"
    by (simp add: tbl_read_def dd_get_def np_zeros_def vec_get_def py_index_def numeral_2_eq_2)
  from mc_first_visit_update [OF c3_key h2 h3 h4 h5 h6 h7, of 0 7]
  obtain s' G where r: "MC_update c3_agent True [0, 0, 0, 0] 0 7 = Inr s'"
    and G: "G = compute_returns (discount_factor c3_agent) (reward_hist c3_agent)"
    and fo: "\<forall>t. first_occurrence (obs_hist c3_agent) (action_hist c3_agent) t \<longrightarrow>
            (\<exists>N Q. tbl_read (num_of_action c3_agent) (n_values c3_agent)
                      (obs_hist c3_agent ! t) (action_hist c3_agent ! t) = Inr N
                 \<and> tbl_read (num_of_action c3_agent) (q_values c3_agent)
                      (obs_hist c3_agent ! t) (action_hist c3_agent ! t) = Inr Q
                 \<and> tbl_read (num_of_action c3_agent) (n_values s')
                      (obs_hist c3_agent ! t) (action_hist c3_agent ! t) = Inr (N + 1)
                 \<and> tbl_read (num_of_action c3_agent) (q_values s')
                      (obs_hist c3_agent ! t) (action_hist c3_agent ! t)
                     = Inr (Q + (1 / (N + 1)) * (G ! t - Q)))"
    by blast
  from fo [rule_format, OF f] obtain N Q where
    "tbl_read 2 [] ?k 1 = Inr N" and "tbl_read 2 [] ?k 1 = Inr Q"
    and "tbl_read 2 (n_values s') ?k 1 = Inr (N + 1)"
    and "tbl_read 2 (q_values s') ?k 1 = Inr (Q + (1 / (N + 1)) * (G ! 0 - Q))"
    unfolding v by blast
  moreover have "G ! 0 = 2" unfolding G v c3_returns by simp
  ultimately have "tbl_read 2 (n_values s') ?k 1 = Inr 1" and "tbl_read 2 (q_values s') ?k 1 = Inr 2"
    using z by simp_all
  with r show ?thesis by blast
qed

text \<open>
  C9. A Monte Carlo update call with \<open>done = false\<close> returns the agent with the transition
  (discretised state, action, reward) appended to the three histories and nothing else
  changed, so \<open>q_values\<close> and \<open>n_values\<close> are as before. A call with \<open>done = true\<close> that returns
  leaves the three histories empty, and its result does not depend on the observation,
  action and reward passed to it: they are not appended.
\<close>

theorem mc_update_histories:
  assumes "discretize_state s obs = Inr k"
  shows "MC_update s False obs action reward
           = Inr (s\<lparr>obs_hist := obs_hist s @ [k], action_hist := action_hist s @ [action],
                    reward_hist := reward_hist s @ [reward]\<rparr>)
       \<and> (\<forall>s'. MC_update s False obs action reward = Inr s'
             \<longrightarrow> q_values s' = q_values s \<and> n_values s' = n_values s)
       \<and> (\<forall>s'. MC_update s True obs action reward = Inr s'
             \<longrightarrow> obs_hist s' = [] \<and> action_hist s' = [] \<and> reward_hist s' = []
               \<and> (\<forall>obs' k' action' reward'. discretize_state s obs' = Inr k'
                     \<longrightarrow> MC_update s True obs' action' reward' = Inr s'))"
proof -
  have 1: "MC_update s False obs action reward
           = Inr (s\<lparr>obs_hist := obs_hist s @ [k], action_hist := action_hist s @ [action],
                    reward_hist := reward_hist s @ [reward]\<rparr>)"
    using assms by (simp add: MC_update_def)
  have 2: "q_values s' = q_values s \<and> n_values s' = n_values s"
    if "MC_update s False obs action reward = Inr s'" for s'
    using that unfolding 1 by auto
  define scan where "scan = mc_scan (num_of_action s) (obs_hist s) (action_hist s)
      (compute_returns (discount_factor s) (reward_hist s)) [0 ..< length (obs_hist s)]
      (q_values s, n_values s) {}"
  have tr: "MC_update s True obs' action' reward' =
      ebind scan (\<lambda>(q, nv). Inr (s\<lparr>q_values := q, n_values := nv,
                   obs_hist := [], action_hist := [], reward_hist := []\<rparr>))"
    if "discretize_state s obs' = Inr k'" for obs' k' action' reward'
    using that by (simp add: MC_update_def Let_def scan_def)
  have 3: "obs_hist s' = [] \<and> action_hist s' = [] \<and> reward_hist s' = []
               \<and> (\<forall>obs' k' action' reward'. discretize_state s obs' = Inr k'
                     \<longrightarrow> MC_update s True obs' action' reward' = Inr s')"
    if r: "MC_update s True obs action reward = Inr s'" for s'
  proof -
    from r have e: "ebind scan (\<lambda>(q, nv). Inr (s\<lparr>q_values := q, n_values := nv,
                   obs_hist := [], action_hist := [], reward_hist := []\<rparr>)) = Inr s'"
      unfolding tr [OF assms] .
    then obtain q nv where "s' = s\<lparr>q_values := q, n_values := nv,
                   obs_hist := [], action_hist := [], reward_hist := []\<rparr>"
      by (auto simp: ebind_eq_Inr)
    then have "obs_hist s' = [] \<and> action_hist s' = [] \<and> reward_hist s' = []" by simp
    moreover have "MC_update s True obs' action' reward' = Inr s'"
      if "discretize_state s obs' = Inr k'" for obs' k' action' reward'
      unfolding tr [OF that] by (rule e)
    ultimately show ?thesis by blast
  qed
  from 1 2 3 show ?thesis by blast
qed

lemma c3_step: "MC_update c3_agent True [0, 0, 0, 0] 0 7 = Inr c3_done"
  unfolding MC_update_def c3_key
  by (simp add: c3_done_def c3_agent_def init_def c3_returns Let_def upt_conv_Cons list_get_def
      first_visit_def step_size_def dd_get_def np_zeros_def vec_get_def vec_set_def py_index_def
      key_val_def numeral_2_eq_2)

theorem mc_update_histories_witness:
  "MC_update c3_agent False [0, 0, 0, 0] 0 7
     = Inr (c3_agent\<lparr>obs_hist := obs_hist c3_agent @ [[PyInt 2, PyInt 2, PyInt 2, PyInt 2]],
              action_hist := action_hist c3_agent @ [0],
              reward_hist := reward_hist c3_agent @ [7]\<rparr>)
   \<and> obs_hist c3_done = [] \<and> action_hist c3_done = [] \<and> reward_hist c3_done = []
   \<and> MC_update c3_agent True [100, 0, 0, 0] 1 3 = Inr c3_done"
proof -
  have k': "discretize_state c3_agent [100, 0, 0, 0] = Inr [PyInt 4, PyInt 2, PyInt 2, PyInt 2]"
    by (simp add: c3_agent_def init_def discretize_state_def linspace_def torch_clip_def
      Let_def upt_conv_Cons)
  from mc_update_histories [OF c3_key, of 0 7] c3_step k' show ?thesis by blast
qed

subsection \<open>Checkpoints: loading merges\<close>

lemma load_items_merged:
  "load_items float_of unparen d t = Inr t'
     \<Longrightarrow> merged (\<lambda>text. float_tuple float_of (unparen text)) d t t'"
proof (induction d arbitrary: t)
  case Nil
  then show ?case by (simp add: merged_def)
next
  case (Cons e d)
  obtain ktext vals where e: "e = (ktext, vals)" by (cases e)
  let ?parse = "\<lambda>text. float_tuple float_of (unparen text)"
  from Cons.prems obtain k0 where k0: "?parse ktext = Inr k0"
    and rest: "load_items float_of unparen d (tbl_store k0 (PyList vals) t) = Inr t'"
    by (auto simp: e ebind_eq_Inr)
  from Cons.IH [OF rest] have ih: "merged ?parse d (tbl_store k0 (PyList vals) t) t'" .
  show ?case
    unfolding merged_def
  proof (intro allI)
    fix k
    let ?hit = "\<lambda>d. \<exists>(text, vals) \<in> set d. \<exists>k'. ?parse text = Inr k' \<and> key_val k' = key_val k"
    let ?res = "\<lambda>d. \<exists>(text, vals) \<in> set d. \<exists>k'. ?parse text = Inr k' \<and> key_val k' = key_val k
                 \<and> tbl_lookup t' k = Some (PyList vals)"
    show "if ?hit (e # d) then ?res (e # d) else tbl_lookup t' k = tbl_lookup t k"
    proof (cases "?hit d")
      case True
      with ih have "?res d" unfolding merged_def by meson
      then have "?res (e # d)" by auto
      moreover from True have "?hit (e # d)" by auto
      ultimately show ?thesis by presburger
    next
      case False
      with ih have l: "tbl_lookup t' k = tbl_lookup (tbl_store k0 (PyList vals) t) k"
        unfolding merged_def by meson
      show ?thesis
      proof (cases "key_val k0 = key_val k")
        case True
        then have "tbl_lookup t' k = Some (PyList vals)" using l by (simp add: tbl_lookup_store)
        with k0 True have "?res (e # d)" by (auto simp: e)
        moreover from k0 True have "?hit (e # d)" by (auto simp: e)
        ultimately show ?thesis by presburger
      next
        case ne: False
        then have "tbl_lookup t' k = tbl_lookup t k" using l by (auto simp: tbl_lookup_store)
        moreover have "\<not> ?hit (e # d)" using False ne k0 by (auto simp: e)
        ultimately show ?thesis by presburger
      qed
    qed
  qed
qed

text \<open>
  C10. \<^verbatim>\<open>load_q_value\<close> merges the file into the existing tables: in each table it loads
  (\<open>qa_values\<close> and \<open>qb_values\<close> for Double Q-Learning; \<open>q_values\<close> otherwise, and \<open>n_values\<close> too for
  Monte Carlo), a state key that was present before and does not appear in the file keeps
  its vector, and a key that appears in the file holds the file's values afterwards.
\<close>

theorem load_q_value_merges:
  assumes "load_q_value float_of s data = Inr s'"
  shows "(control_type s = DOUBLE_Q_LEARNING \<longrightarrow>
            (\<exists>da db. section_of data ''qa_values'' = Inr da \<and> section_of data ''qb_values'' = Inr db
               \<and> merged (\<lambda>text. float_tuple float_of (strip_parens text)) da (qa_values s) (qa_values s')
               \<and> merged (\<lambda>text. float_tuple float_of (strip_parens text)) db (qb_values s) (qb_values s')))
       \<and> (control_type s \<noteq> DOUBLE_Q_LEARNING \<longrightarrow>
            (\<exists>dq. section_of data ''q_values'' = Inr dq
               \<and> merged (\<lambda>text. float_tuple float_of (remove_parens text)) dq (q_values s) (q_values s')))
       \<and> (control_type s = MONTE_CARLO \<longrightarrow>
            (\<exists>dn. section_of data ''n_values'' = Inr dn
               \<and> merged (\<lambda>text. float_tuple float_of (remove_parens text)) dn (n_values s) (n_values s')))"
proof (cases "control_type s = DOUBLE_Q_LEARNING")
  case True
  with assms obtain da db qa qb where
    "section_of data ''qa_values'' = Inr da" "section_of data ''qb_values'' = Inr db"
    "load_items float_of strip_parens da (qa_values s) = Inr qa"
    "load_items float_of strip_parens db (qb_values s) = Inr qb"
    "s' = s\<lparr>qa_values := qa, qb_values := qb\<rparr>"
    by (auto simp: load_q_value_def ebind_eq_Inr)
  with True show ?thesis by (auto dest: load_items_merged)
next
  case False
  with assms obtain dq q where
    dq: "section_of data ''q_values'' = Inr dq"
    and q: "load_items float_of remove_parens dq (q_values s) = Inr q"
    and r: "(if control_type s = MONTE_CARLO then
            ebind (section_of data ''n_values'') (\<lambda>data_n_values.
            ebind (load_items float_of remove_parens data_n_values (n_values s)) (\<lambda>nv.
              Inr (s\<lparr>q_values := q, n_values := nv\<rparr>)))
          else Inr (s\<lparr>q_values := q\<rparr>)) = Inr s'"
    by (auto simp: load_q_value_def ebind_eq_Inr)
  show ?thesis
  proof (cases "control_type s = MONTE_CARLO")
    case True
    with r obtain dn nv where "section_of data ''n_values'' = Inr dn"
      "load_items float_of remove_parens dn (n_values s) = Inr nv"
      "s' = s\<lparr>q_values := q, n_values := nv\<rparr>"
      by (auto simp: ebind_eq_Inr)
    with True dq q show ?thesis by (auto dest: load_items_merged)
  next
    case mc: False
    with r have "s' = s\<lparr>q_values := q\<rparr>" by simp
    with False mc dq q show ?thesis by (auto dest: load_items_merged)
  qed
qed

lemma c10_parse:
  "float_tuple float_dec (remove_parens ''(2, 2, 2, 2)'') = Inr [PyFloat 2, PyFloat 2, PyFloat 2, PyFloat 2]"
  by (simp add: float_tuple_def remove_parens_def float_dec_def digit_val_def)

lemma c10_step: "load_q_value float_dec c10_agent c10_file = Inr c10_after"
  by (simp add: load_q_value_def c10_agent_def c10_file_def c10_after_def init_def section_of_def
      c10_parse key_val_def)

theorem load_q_value_merges_witness:
  "tbl_lookup (q_values c10_after) [PyInt 0, PyInt 0, PyInt 0, PyInt 0]
     = tbl_lookup (q_values c10_agent) [PyInt 0, PyInt 0, PyInt 0, PyInt 0]
   \<and> tbl_lookup (q_values c10_after) [PyInt 2, PyInt 2, PyInt 2, PyInt 2] = Some (PyList [5, 6])"
proof -
  let ?parse = "\<lambda>text. float_tuple float_dec (remove_parens text)"
  have ct: "control_type c10_agent \<noteq> DOUBLE_Q_LEARNING" by (simp add: c10_agent_def init_def)
  have sec: "section_of c10_file ''q_values'' = Inr [(''(2, 2, 2, 2)'', [5, 6])]"
    by (simp add: section_of_def c10_file_def)
  from load_q_value_merges [OF c10_step] ct sec
  have m: "merged ?parse [(''(2, 2, 2, 2)'', [5, 6])] (q_values c10_agent) (q_values c10_after)"
    by simp
  have "tbl_lookup (q_values c10_after) [PyInt 0, PyInt 0, PyInt 0, PyInt 0]
     = tbl_lookup (q_values c10_agent) [PyInt 0, PyInt 0, PyInt 0, PyInt 0]"
    using m [unfolded merged_def, rule_format, of "[PyInt 0, PyInt 0, PyInt 0, PyInt 0]"]
    by (simp add: c10_parse key_val_def)
  moreover have "tbl_lookup (q_values c10_after) [PyInt 2, PyInt 2, PyInt 2, PyInt 2]
     = Some (PyList [5, 6])"
    using m [unfolded merged_def, rule_format, of "[PyInt 2, PyInt 2, PyInt 2, PyInt 2]"]
    by (simp add: c10_parse key_val_def)
  ultimately show ?thesis by simp
qed

subsection \<open>Checkpoints: the text of a key and back\<close>

lemma digit_char_plain: "d < 10 \<Longrightarrow> plain_char (digit_char d)"
proof -
  assume d: "d < 10"
  have v: "(of_char (digit_char d) :: nat) = 48 + d"
    using d by (simp add: digit_char_def)
  have "digit_char d \<noteq> c" if "(of_char c :: nat) < 48" for c
  proof
    assume "digit_char d = c"
    then have "(of_char (digit_char d) :: nat) = of_char c" by simp
    with v that show False by simp
  qed
  then show ?thesis by (simp add: plain_char_def)
qed

lemma str_nat_plain: "\<forall>c \<in> set (str_nat n). plain_char c"
proof (induction n rule: str_nat.induct)
  case (1 n)
  show ?case
  proof (cases "n < 10")
    case True
    then show ?thesis by (subst str_nat.simps) (simp add: digit_char_plain)
  next
    case False
    then have "\<forall>c \<in> set (str_nat (n div 10)). plain_char c" by (rule "1.IH")
    with False show ?thesis by (subst str_nat.simps) (simp add: digit_char_plain)
  qed
qed

lemma str_nat_nonempty: "str_nat n \<noteq> []"
  by (subst str_nat.simps) simp

lemma str_int_plain: "\<forall>c \<in> set (str_int i). plain_char c"
  using str_nat_plain by (simp add: str_int_def plain_char_def)

lemma str_int_nonempty: "str_int i \<noteq> []"
  by (simp add: str_int_def str_nat_nonempty)

lemma digit_val_digit_char: "d < 10 \<Longrightarrow> digit_val (digit_char d) = Some d"
  by (simp add: digit_val_def digit_char_def)

lemma nat_of_digits_append:
  "nat_of_digits acc (xs @ ys) =
     (case nat_of_digits acc xs of None \<Rightarrow> None | Some a \<Rightarrow> nat_of_digits a ys)"
  by (induction xs arbitrary: acc) (simp_all split: option.splits)

lemma nat_of_digits_str_nat: "nat_of_digits 0 (str_nat n) = Some n"
proof (induction n rule: str_nat.induct)
  case (1 n)
  show ?case
  proof (cases "n < 10")
    case True
    then show ?thesis by (subst str_nat.simps) (simp add: digit_val_digit_char)
  next
    case False
    then have "nat_of_digits 0 (str_nat (n div 10)) = Some (n div 10)" by (rule "1.IH")
    with False show ?thesis
      by (subst str_nat.simps) (simp add: nat_of_digits_append digit_val_digit_char)
  qed
qed

lemma str_nat_no_minus: "hd (str_nat n) \<noteq> CHR ''-''"
proof -
  have "\<forall>c \<in> set (str_nat n). c \<noteq> CHR ''-''"
  proof (induction n rule: str_nat.induct)
    case (1 n)
    have dc: "digit_char d \<noteq> CHR ''-''" if "d < 10" for d
    proof
      assume "digit_char d = CHR ''-''"
      then have "(of_char (digit_char d) :: nat) = of_char CHR ''-''" by simp
      with that show False by (simp add: digit_char_def)
    qed
    show ?case
    proof (cases "n < 10")
      case True
      then show ?thesis by (subst str_nat.simps) (simp add: dc)
    next
      case False
      then have "\<forall>c \<in> set (str_nat (n div 10)). c \<noteq> CHR ''-''" by (rule "1.IH")
      with False show ?thesis by (subst str_nat.simps) (simp add: dc)
    qed
  qed
  then show ?thesis using str_nat_nonempty [of n] by (cases "str_nat n") simp_all
qed

lemma float_dec_str_int: "float_dec (str_int i) = Inr (of_int i)"
proof (cases "i < 0")
  case True
  obtain c cs where s: "str_nat (nat (- i)) = c # cs"
    using str_nat_nonempty [of "nat (- i)"] by (cases "str_nat (nat (- i))") auto
  have "nat_of_digits 0 (c # cs) = Some (nat (- i))"
    using nat_of_digits_str_nat [of "nat (- i)"] by (simp only: s)
  then have "float_dec (CHR ''-'' # c # cs) = Inr (- real (nat (- i)))"
    by (simp add: float_dec_def)
  with True show ?thesis by (simp add: str_int_def s)
next
  case False
  obtain c cs where s: "str_nat (nat i) = c # cs"
    using str_nat_nonempty [of "nat i"] by (cases "str_nat (nat i)") auto
  have c: "c \<noteq> CHR ''-''" using str_nat_no_minus [of "nat i"] by (simp add: s)
  have "nat_of_digits 0 (c # cs) = Some (nat i)"
    using nat_of_digits_str_nat [of "nat i"] by (simp only: s)
  with c have "float_dec (c # cs) = Inr (real (nat i))"
    by (simp add: float_dec_def)
  with False show ?thesis by (simp add: str_int_def s)
qed

lemma split_comma_other:
  "c \<noteq> CHR '','' \<Longrightarrow> split_comma acc (c # cs) = split_comma (c # acc) cs"
  by (cases cs) simp_all

lemma split_comma_plain:
  "\<forall>c \<in> set p. c \<noteq> CHR '','' \<Longrightarrow> split_comma acc p = [rev acc @ p]"
proof (induction p arbitrary: acc)
  case Nil
  show ?case by simp
next
  case (Cons c cs)
  then have "split_comma (c # acc) cs = [rev (c # acc) @ cs]" by simp
  moreover have "split_comma acc (c # cs) = split_comma (c # acc) cs"
    using Cons.prems by (intro split_comma_other) simp
  ultimately show ?case by simp
qed

lemma split_comma_sep:
  "\<forall>c \<in> set p. c \<noteq> CHR '','' \<Longrightarrow>
     split_comma acc (p @ '', '' @ rest) = (rev acc @ p) # split_comma [] rest"
proof (induction p arbitrary: acc)
  case Nil
  show ?case by simp
next
  case (Cons c cs)
  have "split_comma acc ((c # cs) @ '', '' @ rest) = split_comma (c # acc) (cs @ '', '' @ rest)"
    unfolding append_Cons using Cons.prems by (intro split_comma_other) simp
  also have "\<dots> = (rev (c # acc) @ cs) # split_comma [] rest"
    using Cons.prems by (intro Cons.IH) simp
  also have "rev (c # acc) @ cs = rev acc @ c # cs" by simp
  finally show ?case .
qed

lemma split_comma_join:
  assumes "\<forall>p \<in> set (q # ps). \<forall>c \<in> set p. c \<noteq> CHR '',''"
  shows "split_comma [] (join_comma (q # ps)) = q # ps"
  using assms
proof (induction ps arbitrary: q)
  case Nil
  then show ?case by (simp add: split_comma_plain)
next
  case (Cons r rs)
  then have "split_comma [] (join_comma (r # rs)) = r # rs" by simp
  moreover from Cons.prems have "\<forall>c \<in> set q. c \<noteq> CHR '',''" by simp
  ultimately show ?case
    using split_comma_sep [of q "[]" "join_comma (r # rs)"] by simp
qed

lemma join_comma_chars:
  "c \<in> set (join_comma ps) \<Longrightarrow> c = CHR '','' \<or> c = CHR '' '' \<or> (\<exists>p \<in> set ps. c \<in> set p)"
  by (induction ps rule: join_comma.induct) auto

lemma join_comma_nonempty: "\<forall>p \<in> set ps. p \<noteq> [] \<Longrightarrow> ps \<noteq> [] \<Longrightarrow> join_comma ps \<noteq> []"
  by (induction ps rule: join_comma.induct) auto

lemma strip_parens_wrapped:
  assumes "\<forall>c \<in> set body. \<not> is_paren c" and "body \<noteq> []"
  shows "strip_parens (''('' @ body @ '')'') = body"
proof -
  obtain b bs where b: "body = b # bs" using assms(2) by (cases body) auto
  with assms(1) have "\<not> is_paren b" by simp
  then have 1: "dropWhile is_paren (''('' @ body @ '')'') = body @ '')''"
    by (simp add: b is_paren_def)
  obtain l ls where l: "rev body = l # ls" using assms(2) by (cases "rev body") auto
  then have "l \<in> set body" by (metis list.set_intros(1) set_rev)
  with assms(1) have "\<not> is_paren l" by blast
  then have 2: "dropWhile is_paren (rev (body @ '')'')) = rev body"
    by (simp add: l is_paren_def)
  show ?thesis unfolding strip_parens_def 1 2 by simp
qed

lemma remove_parens_wrapped:
  assumes "\<forall>c \<in> set body. \<not> is_paren c"
  shows "remove_parens (''('' @ body @ '')'') = body"
proof -
  have "filter (\<lambda>c. c \<noteq> CHR ''('') body = body" and "filter (\<lambda>c. c \<noteq> CHR '')'') body = body"
    using assms by (auto simp: is_paren_def filter_id_conv)
  then show ?thesis by (simp add: remove_parens_def)
qed

lemma map_err_float_ints:
  "\<forall>i \<in> set ns. float_of (str_int i) = Inr (of_int i)
     \<Longrightarrow> map_err float_of (map str_int ns) = Inr (map of_int ns)"
  by (induction ns) simp_all

lemma int_key_repr:
  "list_all is_int k \<Longrightarrow> map (str_num repr_float) k = map str_int (map int_of k)
     \<and> key_val k = map of_int (map int_of k)"
proof (induction k)
  case Nil
  show ?case by (simp add: key_val_def)
next
  case (Cons x k)
  then show ?case by (cases x) (simp_all add: key_val_def)
qed

lemma key_text_round_trip:
  assumes "list_all is_int k" and "2 \<le> length k"
    and fl: "\<forall>x \<in> set k. float_of (str_int (int_of x)) = Inr (of_int (int_of x))"
  shows "\<exists>k'. float_tuple float_of (strip_parens (str_tuple repr_float k)) = Inr k'
           \<and> float_tuple float_of (remove_parens (str_tuple repr_float k)) = Inr k'
           \<and> key_val k' = key_val k"
proof -
  define ns where "ns = map int_of k"
  have m: "map (str_num repr_float) k = map str_int ns" and kv: "key_val k = map of_int ns"
    using int_key_repr [OF assms(1)] by (simp_all add: ns_def)
  from assms(2) obtain i j js where ns3: "ns = i # j # js"
    unfolding ns_def by (cases k; cases "tl k") auto
  from assms(2) have two: "\<And>x. k \<noteq> [x]" by auto
  define body where "body = join_comma (map str_int ns)"
  have st: "str_tuple repr_float k = ''('' @ body @ '')''"
    using two by (cases k; cases "tl k") (auto simp: str_tuple_def body_def m [symmetric])
  have pieces: "\<forall>p \<in> set (map str_int ns). \<forall>c \<in> set p. plain_char c"
    using str_int_plain by auto
  have nopar: "\<forall>c \<in> set body. \<not> is_paren c"
  proof
    fix c assume "c \<in> set body"
    then have "c = CHR '','' \<or> c = CHR '' '' \<or> (\<exists>p \<in> set (map str_int ns). c \<in> set p)"
      unfolding body_def by (rule join_comma_chars)
    with pieces show "\<not> is_paren c" by (auto simp: is_paren_def plain_char_def)
  qed
  have ne: "body \<noteq> []"
    unfolding body_def by (rule join_comma_nonempty) (auto simp: ns3 str_int_nonempty)
  have sp: "split_comma [] body = map str_int ns"
    unfolding body_def ns3 list.map
    by (rule split_comma_join) (use str_int_plain in \<open>auto simp: plain_char_def\<close>)
  have fl': "\<forall>i \<in> set ns. float_of (str_int i) = Inr (of_int i)"
    using fl by (auto simp: ns_def)
  have ft: "float_tuple float_of body = Inr (map PyFloat (map of_int ns))"
    by (simp add: float_tuple_def sp map_err_float_ints [OF fl'])
  have "key_val (map PyFloat xs) = xs" for xs
    by (induction xs) (simp_all add: key_val_def)
  then have "key_val (map PyFloat (map of_int ns)) = key_val k"
    unfolding kv .
  with ft show ?thesis
    unfolding st strip_parens_wrapped [OF nopar ne] remove_parens_wrapped [OF nopar] by blast
qed

subsection \<open>Checkpoints: saving and loading back\<close>

lemma dict_set_fresh: "k \<notin> fst ` set d \<Longrightarrow> dict_set k v d = d @ [(k, v)]"
  by (induction d) auto

lemma str_keys_tolist_arrays:
  assumes "list_all (\<lambda>(k, v). \<not> is_list v) t"
    and "distinct (map (\<lambda>(k, v). str_tuple rf k) t)"
    and "\<forall>(k, v) \<in> set t. str_tuple rf k \<notin> fst ` set d"
  shows "str_keys_tolist rf t d = Inr (d @ map (\<lambda>(k, v). (str_tuple rf k, PyList (elems v))) t)"
  using assms
proof (induction t arbitrary: d)
  case Nil
  show ?case by simp
next
  case (Cons e t)
  obtain k v where e: "e = (k, v)" by (cases e)
  from Cons.prems(1) obtain xs where v: "v = NdArray xs" by (cases v) (auto simp: e)
  from Cons.prems(3) have fresh: "str_tuple rf k \<notin> fst ` set d" by (simp add: e)
  let ?d = "d @ [(str_tuple rf k, PyList xs)]"
  have 1: "list_all (\<lambda>(k, v). \<not> is_list v) t" using Cons.prems(1) by simp
  have 2: "distinct (map (\<lambda>(k, v). str_tuple rf k) t)" using Cons.prems(2) by simp
  have 3: "\<forall>(k', v') \<in> set t. str_tuple rf k' \<notin> fst ` set ?d"
  proof -
    have "str_tuple rf k' \<notin> fst ` set ?d" if in_t: "(k', v') \<in> set t" for k' v'
    proof
      assume bad: "str_tuple rf k' \<in> fst ` set ?d"
      from Cons.prems(3) in_t have "str_tuple rf k' \<notin> fst ` set d" by (auto simp: e)
      with bad have same: "str_tuple rf k' = str_tuple rf k" by auto
      from Cons.prems(2) have "str_tuple rf k \<notin> (\<lambda>(k, v). str_tuple rf k) ` set t"
        by (simp add: e)
      moreover from in_t have "str_tuple rf k' \<in> (\<lambda>(k, v). str_tuple rf k) ` set t"
        by (rule rev_image_eqI) simp
      ultimately show False using same by simp
    qed
    then show ?thesis by fast
  qed
  have "str_keys_tolist rf (e # t) d = str_keys_tolist rf t ?d"
    by (simp add: e v tolist_def dict_set_fresh [OF fresh])
  also have "\<dots> = Inr (?d @ map (\<lambda>(k, v). (str_tuple rf k, PyList (elems v))) t)"
    using 1 2 3 by (rule Cons.IH)
  finally show ?case by (simp add: e v)
qed

lemma distinct_map_transfer:
  assumes "distinct (map g xs)"
    and "\<And>x y. x \<in> set xs \<Longrightarrow> y \<in> set xs \<Longrightarrow> h x = h y \<Longrightarrow> g x = g y"
  shows "distinct (map h xs)"
  using assms
proof (induction xs)
  case Nil
  show ?case by simp
next
  case (Cons x xs)
  from Cons.prems(1) have dx: "g x \<notin> g ` set xs" and d: "distinct (map g xs)" by simp_all
  have tl: "distinct (map h xs)"
  proof (rule Cons.IH [OF d])
    fix a b assume "a \<in> set xs" "b \<in> set xs" "h a = h b"
    then show "g a = g b" using Cons.prems(2) [of a b] by simp
  qed
  have "h x \<notin> h ` set xs"
  proof
    assume "h x \<in> h ` set xs"
    then obtain y where y: "y \<in> set xs" and e: "h x = h y" by blast
    have "g x = g y" using Cons.prems(2) [of x y] y e by simp
    with y dx show False by blast
  qed
  with tl show ?case by simp
qed

lemma int_key_text_inj:
  assumes fl: "\<forall>i. (float_of :: string \<Rightarrow> error + real) (str_int i) = Inr (of_int i)"
    and "list_all is_int k1" "length k1 = 4" "list_all is_int k2" "length k2 = 4"
    and "str_tuple rf k1 = str_tuple rf k2"
  shows "key_val k1 = key_val k2"
proof -
  from key_text_round_trip [OF assms(2), of float_of rf] assms(3) fl
  obtain a where "float_tuple float_of (remove_parens (str_tuple rf k1)) = Inr a"
    "key_val a = key_val k1" by auto
  moreover from key_text_round_trip [OF assms(4), of float_of rf] assms(5) fl
  obtain b where "float_tuple float_of (remove_parens (str_tuple rf k2)) = Inr b"
    "key_val b = key_val k2" by auto
  ultimately show ?thesis using assms(6) by simp
qed

lemma saveable_texts:
  assumes fl: "\<forall>i. (float_of :: string \<Rightarrow> error + real) (str_int i) = Inr (of_int i)" and "saveable t"
  shows "distinct (map (\<lambda>(k, v). str_tuple rf k) t)"
proof -
  from assms(2) have d: "distinct (map (\<lambda>(k, v). key_val k) t)"
    and a: "\<forall>(k, v) \<in> set t. length k = 4 \<and> list_all is_int k"
    by (auto simp: saveable_def list_all_iff)
  show ?thesis
    using d
  proof (rule distinct_map_transfer)
    fix x y assume x: "x \<in> set t" and y: "y \<in> set t"
      and e: "(case x of (k, v) \<Rightarrow> str_tuple rf k) = (case y of (k, v) \<Rightarrow> str_tuple rf k)"
    obtain k1 v1 k2 v2 where xy: "x = (k1, v1)" "y = (k2, v2)" by (cases x, cases y)
    from a x y xy have "list_all is_int k1" "length k1 = 4" "list_all is_int k2" "length k2 = 4"
      by auto
    with fl have "key_val k1 = key_val k2"
      using e by (intro int_key_text_inj [of float_of k1 k2 rf]) (simp_all add: xy)
    then show "(case x of (k, v) \<Rightarrow> key_val k) = (case y of (k, v) \<Rightarrow> key_val k)"
      by (simp add: xy)
  qed
qed

lemma str_keys_saveable:
  assumes fl: "\<forall>i. (float_of :: string \<Rightarrow> error + real) (str_int i) = Inr (of_int i)" and "saveable t"
  shows "str_keys_tolist rf t [] = Inr (map (\<lambda>(k, v). (str_tuple rf k, PyList (elems v))) t)"
proof -
  have "list_all (\<lambda>(k, v). \<not> is_list v) t"
    using assms(2) by (auto simp: saveable_def list_all_iff)
  moreover note saveable_texts [OF assms]
  moreover have "\<forall>(k, v) \<in> set t. str_tuple rf k \<notin> fst ` set []" by simp
  ultimately have "str_keys_tolist rf t [] = Inr ([] @ map (\<lambda>(k, v). (str_tuple rf k, PyList (elems v))) t)"
    by (rule str_keys_tolist_arrays)
  then show ?thesis by simp
qed

lemma dumped_section:
  "map ((\<lambda>(k, v). (k, elems v)) \<circ> (\<lambda>(k, v). (str_tuple rf k, PyList (elems v)))) t
     = json_of rf t"
  by (simp add: json_of_def comp_def case_prod_unfold)

lemma dumped_lists:
  "list_all (\<lambda>(k, v). is_list v) (map (\<lambda>(k, v). (str_tuple rf k, PyList (elems v))) t)"
  by (simp add: list_all_iff case_prod_unfold)

lemma load_items_total:
  "\<forall>(ktext, vals) \<in> set d. \<exists>k. float_tuple float_of (u ktext) = Inr k
     \<Longrightarrow> \<exists>t'. load_items float_of u d t = Inr t'"
proof (induction d arbitrary: t)
  case Nil
  show ?case by simp
next
  case (Cons e d)
  obtain ktext vals where e: "e = (ktext, vals)" by (cases e)
  from Cons.prems obtain k where k: "float_tuple float_of (u ktext) = Inr k" by (auto simp: e)
  from Cons.prems have "\<forall>(ktext, vals) \<in> set d. \<exists>k. float_tuple float_of (u ktext) = Inr k"
    by simp
  from Cons.IH [OF this, of "tbl_store k (PyList vals) t"] show ?case by (simp add: e k)
qed

lemma tbl_lookup_distinct:
  "distinct (map (\<lambda>(k, v). key_val k) t) \<Longrightarrow> (k0, v0) \<in> set t \<Longrightarrow> key_val k0 = key_val k
     \<Longrightarrow> tbl_lookup t k = Some v0"
proof (induction t)
  case Nil
  then show ?case by simp
next
  case (Cons e t)
  obtain k1 v1 where e: "e = (k1, v1)" by (cases e)
  show ?case
  proof (cases "(k0, v0) = e")
    case True
    with Cons.prems(3) show ?thesis by (simp add: e)
  next
    case False
    with Cons.prems(2) have in_t: "(k0, v0) \<in> set t" by simp
    from Cons.prems(1) have d: "distinct (map (\<lambda>(k, v). key_val k) t)"
      and n: "key_val k1 \<notin> (\<lambda>(k, v). key_val k) ` set t" by (simp_all add: e)
    from in_t have "key_val k0 \<in> (\<lambda>(k, v). key_val k) ` set t"
      by (metis (mono_tags, lifting) case_prod_conv image_eqI)
    with n have "key_val k1 \<noteq> key_val k0" by metis
    with Cons.prems(3) have "key_val k1 \<noteq> key_val k" by simp
    moreover have "tbl_lookup t k = Some v0" using d in_t Cons.prems(3) by (rule Cons.IH)
    ultimately show ?thesis by (simp add: e)
  qed
qed

lemma tbl_lookup_Some_set:
  "tbl_lookup t k = Some v \<Longrightarrow> \<exists>k0. (k0, v) \<in> set t \<and> key_val k0 = key_val k"
  by (induction t) (auto split: if_splits)

lemma merged_hit:
  assumes "merged parse d t t'" and "(ktext, vals) \<in> set d" and "parse ktext = Inr k'"
    and "key_val k' = key_val k"
  shows "\<exists>ktext vals k'. (ktext, vals) \<in> set d \<and> parse ktext = Inr k' \<and> key_val k' = key_val k
           \<and> tbl_lookup t' k = Some (PyList vals)"
proof -
  have c: "\<exists>(ktext, vals) \<in> set d. \<exists>k'. parse ktext = Inr k' \<and> key_val k' = key_val k"
    using assms(2,3,4) by blast
  from assms(1) have "if \<exists>(ktext, vals) \<in> set d. \<exists>k'. parse ktext = Inr k' \<and> key_val k' = key_val k
          then \<exists>(ktext, vals) \<in> set d. \<exists>k'. parse ktext = Inr k' \<and> key_val k' = key_val k
                 \<and> tbl_lookup t' k = Some (PyList vals)
          else tbl_lookup t' k = tbl_lookup t k"
    unfolding merged_def by (rule spec)
  with c have "\<exists>(ktext, vals) \<in> set d. \<exists>k'. parse ktext = Inr k' \<and> key_val k' = key_val k
                 \<and> tbl_lookup t' k = Some (PyList vals)"
    by (simp only: if_True)
  then show ?thesis by blast
qed

lemma merged_miss:
  assumes "merged parse d t t'"
    and "\<forall>ktext vals k'. (ktext, vals) \<in> set d \<longrightarrow> parse ktext = Inr k' \<longrightarrow> key_val k' \<noteq> key_val k"
  shows "tbl_lookup t' k = tbl_lookup t k"
proof -
  have c: "\<not> (\<exists>(ktext, vals) \<in> set d. \<exists>k'. parse ktext = Inr k' \<and> key_val k' = key_val k)"
    using assms(2) by blast
  from assms(1) have "if \<exists>(ktext, vals) \<in> set d. \<exists>k'. parse ktext = Inr k' \<and> key_val k' = key_val k
          then \<exists>(ktext, vals) \<in> set d. \<exists>k'. parse ktext = Inr k' \<and> key_val k' = key_val k
                 \<and> tbl_lookup t' k = Some (PyList vals)
          else tbl_lookup t' k = tbl_lookup t k"
    unfolding merged_def by (rule spec)
  with c show ?thesis by (simp only: if_False)
qed

lemma round_trip_table:
  assumes fl: "\<forall>i. (float_of :: string \<Rightarrow> error + real) (str_int i) = Inr (of_int i)"
    and sv: "saveable t"
    and u: "u = strip_parens \<or> u = remove_parens"
  shows "\<exists>t'. load_items float_of u (json_of rf t) [] = Inr t' \<and> same_rows t t'"
proof -
  let ?parse = "\<lambda>ktext. float_tuple float_of (u ktext)"
  from sv have d: "distinct (map (\<lambda>(k, v). key_val k) t)"
    and a: "\<And>k v. (k, v) \<in> set t \<Longrightarrow> length k = 4 \<and> list_all is_int k"
    by (auto simp: saveable_def list_all_iff)
  have parse_ok: "\<exists>k'. ?parse (str_tuple rf k) = Inr k' \<and> key_val k' = key_val k"
    if "(k, v) \<in> set t" for k v
  proof -
    from a [OF that] have i: "list_all is_int k" and l: "2 \<le> length k" by simp_all
    have f: "\<forall>x \<in> set k. float_of (str_int (int_of x)) = Inr (of_int (int_of x))"
      using fl by blast
    from key_text_round_trip [OF i l f, of rf] obtain k' where
      "float_tuple float_of (strip_parens (str_tuple rf k)) = Inr k'"
      "float_tuple float_of (remove_parens (str_tuple rf k)) = Inr k'"
      "key_val k' = key_val k" by blast
    with u show ?thesis by blast
  qed
  have in_json: "\<exists>k v. (k, v) \<in> set t \<and> ktext = str_tuple rf k \<and> vals = elems v"
    if "(ktext, vals) \<in> set (json_of rf t)" for ktext vals
    using that unfolding json_of_def by auto
  have "\<forall>(ktext, vals) \<in> set (json_of rf t). \<exists>k. ?parse ktext = Inr k"
  proof (intro ballI, clarify)
    fix ktext vals assume "(ktext, vals) \<in> set (json_of rf t)"
    from in_json [OF this] obtain k v where "(k, v) \<in> set t" "ktext = str_tuple rf k" by blast
    with parse_ok [of k v] show "\<exists>k. ?parse ktext = Inr k" by blast
  qed
  from load_items_total [OF this, of "[]"] obtain t' where
    l: "load_items float_of u (json_of rf t) [] = Inr t'" by blast
  from load_items_merged [OF l] have m: "merged ?parse (json_of rf t) [] t'" .
  have "tbl_lookup t' k = map_option (\<lambda>v. PyList (elems v)) (tbl_lookup t k)" for k
  proof (cases "tbl_lookup t k")
    case None
    have "\<forall>ktext vals k'. (ktext, vals) \<in> set (json_of rf t) \<longrightarrow> ?parse ktext = Inr k'
            \<longrightarrow> key_val k' \<noteq> key_val k"
    proof (intro allI impI)
      fix ktext vals k'
      assume e: "(ktext, vals) \<in> set (json_of rf t)" and p: "?parse ktext = Inr k'"
      from in_json [OF e] obtain k0 v0 where in_t: "(k0, v0) \<in> set t"
        and kt: "ktext = str_tuple rf k0" by blast
      from parse_ok [OF in_t] p kt have kk: "key_val k' = key_val k0" by simp
      show "key_val k' \<noteq> key_val k"
      proof
        assume "key_val k' = key_val k"
        with kk have "key_val k0 = key_val k" by simp
        with d in_t have "tbl_lookup t k = Some v0" by (rule tbl_lookup_distinct)
        with None show False by simp
      qed
    qed
    with m have "tbl_lookup t' k = tbl_lookup [] k" by (rule merged_miss)
    with None show ?thesis by simp
  next
    case (Some v)
    from tbl_lookup_Some_set [OF this] obtain k0 where in_t: "(k0, v) \<in> set t"
      and kk: "key_val k0 = key_val k" by blast
    from parse_ok [OF in_t] kk obtain k' where p: "?parse (str_tuple rf k0) = Inr k'"
      and pk: "key_val k' = key_val k" by auto
    have e: "(str_tuple rf k0, elems v) \<in> set (json_of rf t)"
      unfolding json_of_def set_map using in_t by (intro image_eqI [of _ _ "(k0, v)"]) simp_all
    from merged_hit [OF m e p pk] obtain ktext vals k2 where
      e2: "(ktext, vals) \<in> set (json_of rf t)" and p2: "?parse ktext = Inr k2"
      and k2: "key_val k2 = key_val k" and r: "tbl_lookup t' k = Some (PyList vals)"
      by blast
    from in_json [OF e2] obtain k1 v1 where in1: "(k1, v1) \<in> set t"
      and kt1: "ktext = str_tuple rf k1" and vs: "vals = elems v1" by blast
    from parse_ok [OF in1] p2 kt1 have "key_val k2 = key_val k1" by simp
    with k2 have "key_val k1 = key_val k" by simp
    with d in1 have "tbl_lookup t k = Some v1" by (rule tbl_lookup_distinct)
    with Some have "v1 = v" by simp
    with r vs Some show ?thesis by simp
  qed
  with l show ?thesis unfolding same_rows_def by blast
qed

lemma str_keys_arrays:
  assumes fl: "\<forall>i. (float_of :: string \<Rightarrow> error + real) (str_int i) = Inr (of_int i)"
    and "saveable t"
  shows "str_keys rf t = map (\<lambda>(k, v). (str_tuple rf k, PyList (elems v))) t"
  by (simp add: str_keys_def str_keys_saveable [OF assms])

lemma json_dump_one:
  "json_dump [(a, map (\<lambda>(k, v). (str_tuple rf k, PyList (elems v))) t)] = Inr [(a, json_of rf t)]"
  unfolding json_dump_def by (simp add: dumped_lists dumped_section)

lemma json_dump_two:
  "json_dump [(a, map (\<lambda>(k, v). (str_tuple rf k, PyList (elems v))) t),
              (b, map (\<lambda>(k, v). (str_tuple rf k, PyList (elems v))) t2)]
     = Inr [(a, json_of rf t), (b, json_of rf t2)]"
  unfolding json_dump_def by (simp add: dumped_lists dumped_section)

text \<open>
  Where the round trip holds: for tables as training leaves them, \<^verbatim>\<open>save_q_value\<close> writes
  a file, \<^verbatim>\<open>load_q_value\<close> reads it into a fresh agent of the same control type, and every
  table that was written is reproduced, row for row. \<open>float_of\<close> is only asked to read the
  decimal text of an int.
\<close>

lemma checkpoint_round_trip:
  assumes fl: "\<forall>i. (float_of :: string \<Rightarrow> error + real) (str_int i) = Inr (of_int i)"
    and fresh: "control_type s0 = control_type s" "q_values s0 = []" "n_values s0 = []"
      "qa_values s0 = []" "qb_values s0 = []"
    and q: "control_type s \<noteq> DOUBLE_Q_LEARNING \<longrightarrow> saveable (q_values s)"
    and n: "control_type s = MONTE_CARLO \<longrightarrow> saveable (n_values s)"
    and ab: "control_type s = DOUBLE_Q_LEARNING \<longrightarrow> saveable (qa_values s) \<and> saveable (qb_values s)"
  shows "\<exists>ckpt s'. save_q_value rf s = Inr ckpt \<and> load_q_value float_of s0 ckpt = Inr s'
      \<and> (control_type s \<noteq> DOUBLE_Q_LEARNING \<longrightarrow> same_rows (q_values s) (q_values s'))
      \<and> (control_type s = MONTE_CARLO \<longrightarrow> same_rows (n_values s) (n_values s'))
      \<and> (control_type s = DOUBLE_Q_LEARNING \<longrightarrow>
            same_rows (qa_values s) (qa_values s') \<and> same_rows (qb_values s) (qb_values s'))"
proof -
  consider (mc) "control_type s = MONTE_CARLO" | (dq) "control_type s = DOUBLE_Q_LEARNING"
    | (other) "control_type s \<noteq> MONTE_CARLO" "control_type s \<noteq> DOUBLE_Q_LEARNING"
    by blast
  then show ?thesis
  proof cases
    case mc
    with q n have sq: "saveable (q_values s)" and sn: "saveable (n_values s)" by simp_all
    define ckpt where "ckpt = [(''q_values'', json_of rf (q_values s)),
                               (''n_values'', json_of rf (n_values s))]"
    have sv: "save_q_value rf s = Inr ckpt"
      unfolding save_q_value_def Let_def ckpt_def
      by (simp add: mc str_keys_arrays [OF fl sq] str_keys_arrays [OF fl sn] json_dump_two)
    from round_trip_table [OF fl sq, of remove_parens rf] obtain q' where
      lq: "load_items float_of remove_parens (json_of rf (q_values s)) [] = Inr q'"
      and rq: "same_rows (q_values s) q'" by blast
    from round_trip_table [OF fl sn, of remove_parens rf] obtain n' where
      ln: "load_items float_of remove_parens (json_of rf (n_values s)) [] = Inr n'"
      and rn: "same_rows (n_values s) n'" by blast
    have "load_q_value float_of s0 ckpt = Inr (s0\<lparr>q_values := q', n_values := n'\<rparr>)"
      unfolding load_q_value_def ckpt_def
      by (simp add: fresh mc section_of_def lq ln)
    with sv rq rn mc show ?thesis by auto
  next
    case dq
    with ab have sa: "saveable (qa_values s)" and sb: "saveable (qb_values s)" by simp_all
    define ckpt where "ckpt = [(''qa_values'', json_of rf (qa_values s)),
                               (''qb_values'', json_of rf (qb_values s))]"
    have sv: "save_q_value rf s = Inr ckpt"
      unfolding save_q_value_def Let_def ckpt_def
      by (simp add: dq str_keys_saveable [OF fl sa] str_keys_saveable [OF fl sb] json_dump_two)
    from round_trip_table [OF fl sa, of strip_parens rf] obtain a' where
      la: "load_items float_of strip_parens (json_of rf (qa_values s)) [] = Inr a'"
      and ra: "same_rows (qa_values s) a'" by blast
    from round_trip_table [OF fl sb, of strip_parens rf] obtain b' where
      lb: "load_items float_of strip_parens (json_of rf (qb_values s)) [] = Inr b'"
      and rb: "same_rows (qb_values s) b'" by blast
    have "load_q_value float_of s0 ckpt = Inr (s0\<lparr>qa_values := a', qb_values := b'\<rparr>)"
      unfolding load_q_value_def ckpt_def
      by (simp add: fresh dq section_of_def la lb)
    with sv ra rb dq show ?thesis by auto
  next
    case other
    with q have sq: "saveable (q_values s)" by simp
    define ckpt where "ckpt = [(''q_values'', json_of rf (q_values s))]"
    have sv: "save_q_value rf s = Inr ckpt"
      unfolding save_q_value_def Let_def ckpt_def
      by (simp add: other str_keys_arrays [OF fl sq] json_dump_one)
    from round_trip_table [OF fl sq, of remove_parens rf] obtain q' where
      lq: "load_items float_of remove_parens (json_of rf (q_values s)) [] = Inr q'"
      and rq: "same_rows (q_values s) q'" by blast
    have "load_q_value float_of s0 ckpt = Inr (s0\<lparr>q_values := q'\<rparr>)"
      unfolding load_q_value_def ckpt_def
      by (simp add: fresh other section_of_def lq)
    with sv rq other show ?thesis by auto
  qed
qed

lemma digit_char_2: "digit_char 2 = CHR ''2''"
proof -
  have "(of_char CHR ''2'' :: nat) = 50" by simp
  then have "char_of (50 :: nat) = char_of (of_char CHR ''2'' :: nat)" by (simp only:)
  also have "\<dots> = CHR ''2''" by (rule char_of_char)
  finally show ?thesis by (simp add: digit_char_def)
qed

lemma c4_key_text: "str_tuple rf [PyInt 2, PyInt 2, PyInt 2, PyInt 2] = ''(2, 2, 2, 2)''"
  by (simp add: str_tuple_def str_int_def str_nat.simps digit_char_2)

lemma c4_parse:
  "float_tuple float_dec (strip_parens ''(2, 2, 2, 2)'') = Inr [PyFloat 2, PyFloat 2, PyFloat 2, PyFloat 2]"
  by (simp add: float_tuple_def strip_parens_def is_paren_def float_dec_def digit_val_def)

lemma c4_saved: "save_q_value rf c6_s1 = Inr c4_file"
  by (simp add: save_q_value_def c6_s1_def c5_agent_def init_def str_keys_def tolist_def
      json_dump_def c4_key_text c4_file_def)

lemma c4_loaded: "load_q_value float_dec c6_s1 c4_file = Inr c4_reloaded"
  by (simp add: load_q_value_def c6_s1_def c5_agent_def init_def c4_file_def section_of_def
      c4_parse key_val_def c4_reloaded_def)

text \<open>
  C4. The round trip of a table needs \<^verbatim>\<open>save_q_value\<close> to write it. A Double Q-Learning
  agent updates one cell, saves, and loads its own checkpoint back: the row is now a Python
  list, still under the int key \<open>(2, 2, 2, 2)\<close>. Saving this table raises
  \<^verbatim>\<open>AttributeError\<close>, since the \<open>qa_values\<close> path calls \<^verbatim>\<open>.tolist()\<close> without the fallback that
  the \<open>q_values\<close> path of the same function has; no file is written and nothing can be
  loaded.
\<close>

theorem save_after_load_raises:
  "Double_Q_Learning_update c5_agent [0, 0, 0, 0] 1 1 [0, 0, 0, 0] = Inr c6_s1
   \<and> save_q_value repr_dec c6_s1 = Inr c4_file
   \<and> load_q_value float_dec c6_s1 c4_file = Inr c4_reloaded
   \<and> qa_values c4_reloaded = [([PyInt 2, PyInt 2, PyInt 2, PyInt 2], PyList [0, 1/2])]
   \<and> save_q_value repr_dec c4_reloaded = Inl AttributeError"
proof -
  have "save_q_value repr_dec c4_reloaded = Inl AttributeError"
    by (simp add: save_q_value_def c4_reloaded_def c6_s1_def c5_agent_def init_def str_keys_def
        tolist_def)
  moreover have "qa_values c4_reloaded = [([PyInt 2, PyInt 2, PyInt 2, PyInt 2], PyList [0, 1/2])]"
    by (simp add: c4_reloaded_def)
  ultimately show ?thesis using c6_step1 c4_saved c4_loaded by simp
qed

lemma checkpoint_round_trip_example:
  "\<exists>ckpt s'. save_q_value repr_dec c6_s1 = Inr ckpt \<and> load_q_value float_dec c5_agent ckpt = Inr s'
      \<and> same_rows (qa_values c6_s1) (qa_values s') \<and> same_rows (qb_values c6_s1) (qb_values s')"
proof -
  have fl: "\<forall>i. float_dec (str_int i) = Inr (of_int i)" by (simp add: float_dec_str_int)
  have ct: "control_type c5_agent = control_type c6_s1" "q_values c5_agent = []"
    "n_values c5_agent = []" "qa_values c5_agent = []" "qb_values c5_agent = []"
    by (simp_all add: c6_s1_def c5_agent_def init_def)
  have dq: "control_type c6_s1 = DOUBLE_Q_LEARNING" by (simp add: c6_s1_def c5_agent_def init_def)
  have 1: "control_type c6_s1 \<noteq> DOUBLE_Q_LEARNING \<longrightarrow> saveable (q_values c6_s1)"
    and 2: "control_type c6_s1 = MONTE_CARLO \<longrightarrow> saveable (n_values c6_s1)"
    and 3: "control_type c6_s1 = DOUBLE_Q_LEARNING \<longrightarrow>
              saveable (qa_values c6_s1) \<and> saveable (qb_values c6_s1)"
    by (simp_all add: c6_s1_def c5_agent_def init_def saveable_def)
  from checkpoint_round_trip [OF fl ct 1 2 3, of repr_dec] dq show ?thesis by auto
qed

end
